theory Spec2Isabelle
  imports Complex_Main
begin

section \<open>Data model\<close>

text \<open>
  The script of \<^verbatim>\<open>src/Script.js\<close> keeps no data of its own: its state is the state of the
  page elements it caches in the object \<^verbatim>\<open>DOM\<close>, a few browser-side values (the scroll offset,
  the inline style of \<^verbatim>\<open>document.body\<close>, the images of the document) and the runtime
  bookkeeping of the browser (registered listeners, pending timers, the intersection
  observer). Each kind of element is a record of exactly the properties the script reads or
  writes.
\<close>

subsection \<open>Configuration\<close>

text \<open>The object \<^verbatim>\<open>CONFIG\<close> (lines 11-16).\<close>

definition scrollThreshold :: real where
  "scrollThreshold = 50"

definition backToTopThreshold :: real where
  "backToTopThreshold = 300"

definition debounceDelay :: nat where
  "debounceDelay = 150"

definition loadingDelay :: nat where
  "loadingDelay = 800"

subsection \<open>Elements\<close>

text \<open>
  A \<^verbatim>\<open>classList\<close> is an ordered set of tokens: \<^verbatim>\<open>add\<close> appends a token that is not yet
  there, \<^verbatim>\<open>remove\<close> deletes it, \<^verbatim>\<open>contains\<close> tests membership.
\<close>

type_synonym classList = "string list"

definition classList_add :: "string \<Rightarrow> classList \<Rightarrow> classList" where
  "classList_add c cl = (if c \<in> set cl then cl else cl @ [c])"

definition classList_remove :: "string \<Rightarrow> classList \<Rightarrow> classList" where
  "classList_remove c cl = filter (\<lambda>x. x \<noteq> c) cl"

definition classList_contains :: "string \<Rightarrow> classList \<Rightarrow> bool" where
  "classList_contains c cl = (c \<in> set cl)"

text \<open>
  A bike card: its \<^verbatim>\<open>data-category\<close> attribute (\<open>None\<close> when the attribute is missing, as
  \<^verbatim>\<open>getAttribute\<close> returns \<^verbatim>\<open>null\<close>) and the three inline style properties that
  \<^verbatim>\<open>filterBikes\<close> writes.
\<close>

record card =
  card_category :: "string option"
  card_display :: string
  card_opacity :: string
  card_transform :: string

record filter_btn =
  btn_classList :: classList
  btn_category :: "string option"

record loader_style =
  loader_opacity :: string
  loader_display :: string

text \<open>
  A form control: its current value and the default value that \<^verbatim>\<open>form.reset()\<close> restores.
\<close>

record form_field =
  field_value :: string
  field_default :: string

text \<open>
  An image: its \<^verbatim>\<open>src\<close> and \<^verbatim>\<open>data-src\<close> attributes, \<open>None\<close> when the attribute is missing.
\<close>

record image =
  img_src :: "string option"
  img_data_src :: "string option"

text \<open>The element that an in-page link points to; the script reads its \<^verbatim>\<open>offsetTop\<close> only.\<close>

record target_element =
  offsetTop :: int

text \<open>Text outside ASCII (the notification of the contact form) is a list of code points.\<close>

type_synonym ustring = "nat list"

subsection \<open>The element cache\<close>

text \<open>
  The object \<^verbatim>\<open>DOM\<close> (lines 21-33, filled by \<^verbatim>\<open>cacheDOMElements\<close>). A field is \<open>None\<close> when
  the reference is \<^verbatim>\<open>null\<close>: the element is missing from the page, or the cache has not been
  filled yet. A collection returned by \<^verbatim>\<open>querySelectorAll\<close> is never \<^verbatim>\<open>null\<close> once cached; it
  is \<open>Some []\<close> when nothing matches. An element is identified with its state, and a member of
  a collection with its position in it. The toggle button, the close button and the menu
  links carry no state the script uses.
\<close>

record DOM =
  loader :: "loader_style option"
  navbar :: "classList option"
  mobileToggle :: "unit option"
  mobileMenu :: "classList option"
  mobileClose :: "unit option"
  mobileLinks :: "unit list option"
  filterBtns :: "filter_btn list option"
  bikeCards :: "card list option"
  backToTop :: "classList option"
  contactForm :: "form_field list option"
  navLinks :: "string list option"

subsection \<open>Page state and runtime state\<close>

text \<open>
  The page state extends the cache by what else a visitor can observe: the inline
  \<^verbatim>\<open>overflow\<close> of \<^verbatim>\<open>document.body\<close>, the vertical scroll offset \<^verbatim>\<open>window.scrollY\<close>, the images
  of the document, and logs of the calls of \<^verbatim>\<open>alert\<close>, of \<^verbatim>\<open>window.scrollTo\<close> (the requested
  top and behavior) and of the assignments to an image's \<^verbatim>\<open>src\<close> (each one starts a load).
\<close>

record page = DOM +
  body_overflow :: string
  scrollY :: real
  images :: "image list"
  alerts :: "ustring list"
  scrollTo_calls :: "(int \<times> string) list"
  src_assignments :: "(nat \<times> string) list"

text \<open>
  What a pending timer runs: the callbacks that the script passes to \<^verbatim>\<open>setTimeout\<close>.
\<close>

datatype task =
    LoaderFade        \<comment> \<open>lines 100-107, armed by the load listener\<close>
  | LoaderHide        \<comment> \<open>lines 103-105\<close>
  | NavbarScroll      \<comment> \<open>the function debounced at lines 118-126\<close>
  | BackToTop         \<comment> \<open>the function debounced at lines 260-268\<close>
  | HideCard nat      \<comment> \<open>lines 227-229, for the card at this position\<close>

record timer =
  timer_id :: nat
  due :: nat
  task :: task

text \<open>A registered listener: the target, the event and the handler.\<close>

datatype listener =
    OnLoad_hideLoader
  | OnScroll_handleNavbarScroll
  | OnScroll_handleBackToTop
  | OnClick_mobileToggle
  | OnClick_mobileClose
  | OnClick_mobileLink nat
  | OnClick_mobileMenu
  | OnClick_navLink nat
  | OnClick_filterBtn nat
  | OnClick_backToTop
  | OnSubmit_contactForm

text \<open>
  The observer of \<^verbatim>\<open>initLazyLoading\<close>: its root margin and the images it watches, by
  position in \<^const>\<open>images\<close>.
\<close>

record observer =
  rootMargin :: string
  observed :: "nat list"

text \<open>
  The runtime state: the listeners registered so far, the clock (in milliseconds) and the
  pending timers in the order of their creation, the next timer handle, the variable
  \<^verbatim>\<open>timeout\<close> of each of the two closures made by \<^verbatim>\<open>debounce\<close>, whether the browser has
  \<^verbatim>\<open>IntersectionObserver\<close>, and the observer once created.
\<close>

record state = page +
  listeners :: "listener list"
  clock :: nat
  timers :: "timer list"
  next_timer_id :: nat
  navbarScroll_timeout :: "nat option"
  backToTop_timeout :: "nat option"
  hasIntersectionObserver :: bool
  imageObserver :: "observer option"

text \<open>An event object, as far as the handlers use it.\<close>

record event =
  defaultPrevented :: bool

datatype error = SyntaxError

section \<open>Mobile menu\<close>

text \<open>\<^verbatim>\<open>toggleMobileMenu\<close> (lines 131-141).\<close>

definition toggleMobileMenu :: "bool \<Rightarrow> state \<Rightarrow> state" where
  "toggleMobileMenu show s =
     (case mobileMenu s of
        None \<Rightarrow> s
      | Some menu \<Rightarrow>
          if show then s\<lparr>mobileMenu := Some (classList_add ''active'' menu), body_overflow := ''hidden''\<rparr>
          else s\<lparr>mobileMenu := Some (classList_remove ''active'' menu), body_overflow := ''''\<rparr>)"

section \<open>Timers and the event loop\<close>

text \<open>
  \<^verbatim>\<open>setTimeout\<close> appends a timer that is due after the given delay and returns its handle;
  \<^verbatim>\<open>clearTimeout\<close> cancels the timer with the given handle, and does nothing for
  \<^verbatim>\<open>undefined\<close> or for a handle that is no longer pending.
\<close>

definition setTimeout :: "task \<Rightarrow> nat \<Rightarrow> state \<Rightarrow> nat \<times> state" where
  "setTimeout func wait s =
     (next_timer_id s,
      s\<lparr>timers := timers s @ [\<lparr>timer_id = next_timer_id s, due = clock s + wait, task = func\<rparr>],
        next_timer_id := Suc (next_timer_id s)\<rparr>)"

definition clearTimeout :: "nat option \<Rightarrow> state \<Rightarrow> state" where
  "clearTimeout h s =
     (case h of
        None \<Rightarrow> s
      | Some i \<Rightarrow> s\<lparr>timers := filter (\<lambda>tm. timer_id tm \<noteq> i) (timers s)\<rparr>)"

text \<open>
  One call of a function returned by \<^verbatim>\<open>debounce\<close> (lines 42-48): cancel the timer of the
  previous call, arm a new one. The caller stores the handle in the closure's variable.
\<close>

definition debounce :: "task \<Rightarrow> nat \<Rightarrow> nat option \<Rightarrow> state \<Rightarrow> nat \<times> state" where
  "debounce func wait timeout s = setTimeout func wait (clearTimeout timeout s)"

subsection \<open>The callbacks\<close>

text \<open>The callback of the load listener (lines 100-107) and the one it arms (lines 103-105).\<close>

definition loaderFade :: "state \<Rightarrow> state" where
  "loaderFade s =
     (case loader s of
        None \<Rightarrow> s
      | Some l \<Rightarrow> snd (setTimeout LoaderHide 300 (s\<lparr>loader := Some (l\<lparr>loader_opacity := ''0''\<rparr>)\<rparr>)))"

text \<open>
  The inner callback is armed only under the guard of the outer one, and the cache is never
  emptied afterwards, so the branch \<open>None\<close> is never taken.
\<close>

definition loaderHide :: "state \<Rightarrow> state" where
  "loaderHide s =
     (case loader s of
        None \<Rightarrow> s
      | Some l \<Rightarrow> s\<lparr>loader := Some (l\<lparr>loader_display := ''none''\<rparr>)\<rparr>)"

text \<open>The function that \<^verbatim>\<open>handleNavbarScroll\<close> debounces (lines 118-126).\<close>

definition navbarScroll :: "state \<Rightarrow> state" where
  "navbarScroll s =
     (case navbar s of
        None \<Rightarrow> s
      | Some nb \<Rightarrow>
          if scrollY s > scrollThreshold then s\<lparr>navbar := Some (classList_add ''scrolled'' nb)\<rparr>
          else s\<lparr>navbar := Some (classList_remove ''scrolled'' nb)\<rparr>)"

text \<open>The function that \<^verbatim>\<open>handleBackToTop\<close> debounces (lines 260-268).\<close>

definition backToTopVisibility :: "state \<Rightarrow> state" where
  "backToTopVisibility s =
     (case backToTop s of
        None \<Rightarrow> s
      | Some b \<Rightarrow>
          if scrollY s > backToTopThreshold then s\<lparr>backToTop := Some (classList_add ''visible'' b)\<rparr>
          else s\<lparr>backToTop := Some (classList_remove ''visible'' b)\<rparr>)"

text \<open>
  The delayed half of \<^verbatim>\<open>filterBikes\<close> (lines 227-229): the closure holds the card itself,
  here its position in the cached collection.
\<close>

definition hideCard :: "nat \<Rightarrow> state \<Rightarrow> state" where
  "hideCard i s =
     (case bikeCards s of
        None \<Rightarrow> s
      | Some cards \<Rightarrow>
          if i < length cards
          then s\<lparr>bikeCards := Some (cards[i := (cards ! i)\<lparr>card_display := ''none''\<rparr>])\<rparr>
          else s)"

fun run_task :: "task \<Rightarrow> state \<Rightarrow> state" where
  "run_task LoaderFade s = loaderFade s"
| "run_task LoaderHide s = loaderHide s"
| "run_task NavbarScroll s = navbarScroll s"
| "run_task BackToTop s = backToTopVisibility s"
| "run_task (HideCard i) s = hideCard i s"

subsection \<open>Letting time pass\<close>

text \<open>
  The browser runs a pending timer once its delay has elapsed, the earliest first, and
  timers due at the same time in the order of their creation. \<open>next_due t\<close> picks the timer
  to run next among those due by time \<open>t\<close>; \<open>fire\<close> removes it from the queue, moves the
  clock to its due time and runs its callback; \<open>advance_to t\<close> runs every timer due by \<open>t\<close>,
  including the ones armed on the way, and leaves the clock at \<open>t\<close>.
\<close>

definition next_due :: "nat \<Rightarrow> timer list \<Rightarrow> timer option" where
  "next_due t ts =
     (case filter (\<lambda>tm. due tm \<le> t) ts of
        [] \<Rightarrow> None
      | x # xs \<Rightarrow> Some (fold (\<lambda>y m. if due y < due m then y else m) xs x))"

definition fire :: "timer \<Rightarrow> state \<Rightarrow> state" where
  "fire tm s = run_task (task tm) (s\<lparr>timers := remove1 tm (timers s), clock := max (clock s) (due tm)\<rparr>)"

fun task_weight :: "task \<Rightarrow> nat" where
  "task_weight LoaderFade = 2"
| "task_weight _ = 1"

definition pending_weight :: "state \<Rightarrow> nat" where
  "pending_weight s = sum_list (map (\<lambda>tm. task_weight (task tm)) (timers s))"

lemma fold_earliest_in_set:
  "fold (\<lambda>y m. if due y < due m then y else m) xs (x :: timer) \<in> set (x # xs)"
  by (induction xs arbitrary: x) (auto split: if_splits)

lemma next_due_SomeD:
  assumes "next_due t ts = Some tm"
  shows "tm \<in> set ts" and "due tm \<le> t"
proof -
  obtain x xs where f: "filter (\<lambda>tm. due tm \<le> t) ts = x # xs"
    and tm: "tm = fold (\<lambda>y m. if due y < due m then y else m) xs x"
    using assms by (auto simp: next_due_def split: list.splits)
  have "tm \<in> set (x # xs)"
    unfolding tm by (rule fold_earliest_in_set)
  then have "tm \<in> set (filter (\<lambda>tm. due tm \<le> t) ts)"
    using f by simp
  then show "tm \<in> set ts" and "due tm \<le> t"
    by simp_all
qed

lemma next_due_None_iff:
  "next_due t ts = None \<longleftrightarrow> (\<forall>tm \<in> set ts. t < due tm)"
proof -
  have "next_due t ts = None \<longleftrightarrow> filter (\<lambda>tm. due tm \<le> t) ts = []"
    by (simp add: next_due_def split: list.splits)
  also have "\<dots> \<longleftrightarrow> (\<forall>tm \<in> set ts. t < due tm)"
    by (simp add: filter_empty_conv not_le)
  finally show ?thesis .
qed

lemma pending_weight_run_task:
  "pending_weight (run_task k s) < pending_weight s + task_weight k"
  by (cases k)
     (auto simp: pending_weight_def loaderFade_def loaderHide_def navbarScroll_def
        backToTopVisibility_def hideCard_def setTimeout_def split: option.splits)

lemma pending_weight_fire:
  assumes "tm \<in> set (timers s)"
  shows "pending_weight (fire tm s) < pending_weight s"
proof -
  let ?s = "s\<lparr>timers := remove1 tm (timers s), clock := max (clock s) (due tm)\<rparr>"
  have "pending_weight ?s + task_weight (task tm) = pending_weight s"
    using assms by (simp add: pending_weight_def sum_list_map_remove1)
  moreover have "pending_weight (fire tm s) < pending_weight ?s + task_weight (task tm)"
    unfolding fire_def by (rule pending_weight_run_task)
  ultimately show ?thesis by simp
qed

function advance_to :: "nat \<Rightarrow> state \<Rightarrow> state" where
  "advance_to t s =
     (case next_due t (timers s) of
        None \<Rightarrow> s\<lparr>clock := max (clock s) t\<rparr>
      | Some tm \<Rightarrow> advance_to t (fire tm s))"
  by pat_completeness auto
termination
  by (relation "measure (\<lambda>(t, s). pending_weight s)")
     (auto dest: next_due_SomeD(1) intro: pending_weight_fire)

declare advance_to.simps [simp del]

text \<open>Letting \<open>d\<close> milliseconds pass.\<close>

definition elapse :: "nat \<Rightarrow> state \<Rightarrow> state" where
  "elapse d s = advance_to (clock s + d) s"

section \<open>Registering listeners\<close>

text \<open>
  \<^verbatim>\<open>addEventListener\<close> appends to the list of listeners. The two debounced scroll handlers
  are one function object each, and the browser does not register the same function twice
  for one target and event; every other listener is a closure made anew at registration.
\<close>

fun same_function :: "listener \<Rightarrow> bool" where
  "same_function OnScroll_handleNavbarScroll = True"
| "same_function OnScroll_handleBackToTop = True"
| "same_function _ = False"

definition addEventListener :: "listener \<Rightarrow> state \<Rightarrow> state" where
  "addEventListener l s =
     (if same_function l \<and> l \<in> set (listeners s) then s
      else s\<lparr>listeners := listeners s @ [l]\<rparr>)"

section \<open>Loading screen\<close>

text \<open>\<^verbatim>\<open>initLoader\<close> (lines 97-109) and its load listener (lines 99-108).\<close>

definition initLoader :: "state \<Rightarrow> state" where
  "initLoader s = addEventListener OnLoad_hideLoader s"

definition window_load :: "state \<Rightarrow> state" where
  "window_load s = snd (setTimeout LoaderFade loadingDelay s)"

section \<open>Navigation\<close>

text \<open>
  \<^verbatim>\<open>handleNavbarScroll\<close> (lines 118-126) as the scroll listener calls it: the debounced
  function with a wait of 10 ms.
\<close>

definition handleNavbarScroll :: "state \<Rightarrow> state" where
  "handleNavbarScroll s =
     (let (h, s') = debounce NavbarScroll 10 (navbarScroll_timeout s) s
      in s'\<lparr>navbarScroll_timeout := Some h\<rparr>)"

text \<open>
  \<^verbatim>\<open>initNavigation\<close> (lines 146-175). The scroll listener is registered without a guard;
  each of the four click registrations is guarded by its element.
\<close>

definition initNavigation :: "state \<Rightarrow> state" where
  "initNavigation s =
     (let s1 = addEventListener OnScroll_handleNavbarScroll s;
          s2 = (case mobileToggle s1 of None \<Rightarrow> s1 | Some _ \<Rightarrow> addEventListener OnClick_mobileToggle s1);
          s3 = (case mobileClose s2 of None \<Rightarrow> s2 | Some _ \<Rightarrow> addEventListener OnClick_mobileClose s2);
          s4 = (case mobileLinks s3 of
                  None \<Rightarrow> s3
                | Some links \<Rightarrow> fold (\<lambda>i. addEventListener (OnClick_mobileLink i)) [0..<length links] s3)
      in case mobileMenu s4 of None \<Rightarrow> s4 | Some _ \<Rightarrow> addEventListener OnClick_mobileMenu s4)"

text \<open>The click listeners of lines 152, 157, 163 and 169-173.\<close>

definition mobileToggle_click :: "state \<Rightarrow> state" where
  "mobileToggle_click s = toggleMobileMenu True s"

definition mobileClose_click :: "state \<Rightarrow> state" where
  "mobileClose_click s = toggleMobileMenu False s"

definition mobileLink_click :: "state \<Rightarrow> state" where
  "mobileLink_click s = toggleMobileMenu False s"

text \<open>The argument says whether the target of the click is the menu panel itself.\<close>

definition mobileMenu_click :: "bool \<Rightarrow> state \<Rightarrow> state" where
  "mobileMenu_click target_is_menu s = (if target_is_menu then toggleMobileMenu False s else s)"

section \<open>Smooth scroll\<close>

text \<open>
  \<^verbatim>\<open>window.scrollTo({top, behavior})\<close>: the request is logged; the animation is the browser's.
\<close>

definition scrollTo :: "int \<Rightarrow> string \<Rightarrow> state \<Rightarrow> state" where
  "scrollTo top' behavior s = s\<lparr>scrollTo_calls := scrollTo_calls s @ [(top', behavior)]\<rparr>"

text \<open>
  \<^verbatim>\<open>document.querySelector\<close> is the browser's: it is a parameter \<open>qs\<close> of the click listener,
  which gives for a selector either the exception \<^verbatim>\<open>SyntaxError\<close> (the selector is not valid,
  as for the href \<^verbatim>\<open>#\<close>), or no element, or the first element that matches.
\<close>

type_synonym querySelector = "string \<Rightarrow> error + target_element option"

definition startsWith :: "string \<Rightarrow> string \<Rightarrow> bool" where
  "startsWith p str = (take (length p) str = p)"

text \<open>
  The click listener of a link (lines 184-200), given the link's \<^verbatim>\<open>href\<close>. It returns the
  exception thrown, if any, with the event and the state as they are when the listener ends.
\<close>

definition navLink_click :: "querySelector \<Rightarrow> string \<Rightarrow> event \<Rightarrow> state \<Rightarrow> error option \<times> event \<times> state" where
  "navLink_click qs href e s =
     (if startsWith ''#'' href then
        let e' = e\<lparr>defaultPrevented := True\<rparr> in
        case qs href of
          Inl err \<Rightarrow> (Some err, e', s)
        | Inr None \<Rightarrow> (None, e', s)
        | Inr (Some target) \<Rightarrow> (None, e', scrollTo (offsetTop target - 80) ''smooth'' s)
      else (None, e, s))"

text \<open>\<^verbatim>\<open>initSmoothScroll\<close> (lines 180-202).\<close>

definition initSmoothScroll :: "state \<Rightarrow> state" where
  "initSmoothScroll s =
     (case navLinks s of
        None \<Rightarrow> s
      | Some links \<Rightarrow> fold (\<lambda>i. addEventListener (OnClick_navLink i)) [0..<length links] s)"

section \<open>Category filter\<close>

text \<open>
  The test of line 216. Both categories come from \<^verbatim>\<open>getAttribute\<close>, so a missing attribute
  is \<^verbatim>\<open>null\<close> and \<^verbatim>\<open>===\<close> is equality of optional strings.
\<close>

definition shouldShow :: "string option \<Rightarrow> card \<Rightarrow> bool" where
  "shouldShow category c = (category = Some ''all'' \<or> card_category c = category)"

text \<open>The two branches of the loop of \<^verbatim>\<open>filterBikes\<close>: lines 219-223 and lines 225-226.\<close>

definition showCard :: "card \<Rightarrow> card" where
  "showCard c = c\<lparr>card_display := ''block'', card_opacity := ''1'', card_transform := ''translateY(0)''\<rparr>"

definition fadeCard :: "card \<Rightarrow> card" where
  "fadeCard c = c\<lparr>card_opacity := ''0'', card_transform := ''translateY(20px)''\<rparr>"

text \<open>
  The body of the loop of \<^verbatim>\<open>filterBikes\<close> (lines 215-230) for the card at position \<open>i\<close>:
  a card to show is restyled at once; a card to hide is faded and a timer is armed that
  hides it 300 ms later. Reading \<^verbatim>\<open>offsetWidth\<close> (line 221) forces a reflow and changes
  nothing.
\<close>

definition filterCard :: "string option \<Rightarrow> nat \<Rightarrow> state \<Rightarrow> state" where
  "filterCard category i s =
     (case bikeCards s of
        None \<Rightarrow> s
      | Some cards \<Rightarrow>
          if i < length cards then
            let c = cards ! i in
            if shouldShow category c
            then s\<lparr>bikeCards := Some (cards[i := showCard c])\<rparr>
            else snd (setTimeout (HideCard i) 300 (s\<lparr>bikeCards := Some (cards[i := fadeCard c])\<rparr>))
          else s)"

text \<open>\<^verbatim>\<open>filterBikes\<close> (lines 211-232).\<close>

definition filterBikes :: "string option \<Rightarrow> state \<Rightarrow> state" where
  "filterBikes category s =
     (case bikeCards s of
        None \<Rightarrow> s
      | Some cards \<Rightarrow> fold (filterCard category) [0..<length cards] s)"

text \<open>
  The click listener of the filter button at position \<open>i\<close> (lines 241-249); \<^verbatim>\<open>this\<close> is that
  button. A listener exists only for a button of the cached collection.
\<close>

definition filterBtn_click :: "nat \<Rightarrow> state \<Rightarrow> state" where
  "filterBtn_click i s =
     (case filterBtns s of
        None \<Rightarrow> s
      | Some btns \<Rightarrow>
          if i < length btns then
            let btns1 = map (\<lambda>b. b\<lparr>btn_classList := classList_remove ''active'' (btn_classList b)\<rparr>) btns;
                this = (btns1 ! i)\<lparr>btn_classList := classList_add ''active'' (btn_classList (btns1 ! i))\<rparr>;
                category = btn_category this
            in filterBikes category (s\<lparr>filterBtns := Some (btns1[i := this])\<rparr>)
          else s)"

text \<open>\<^verbatim>\<open>initCategoryFilter\<close> (lines 237-251).\<close>

definition initCategoryFilter :: "state \<Rightarrow> state" where
  "initCategoryFilter s =
     (case filterBtns s of
        None \<Rightarrow> s
      | Some btns \<Rightarrow> fold (\<lambda>i. addEventListener (OnClick_filterBtn i)) [0..<length btns] s)"

section \<open>Back to top\<close>

text \<open>\<^verbatim>\<open>handleBackToTop\<close> (lines 260-268) as the scroll listener calls it, with a wait of 100 ms.\<close>

definition handleBackToTop :: "state \<Rightarrow> state" where
  "handleBackToTop s =
     (let (h, s') = debounce BackToTop 100 (backToTop_timeout s) s
      in s'\<lparr>backToTop_timeout := Some h\<rparr>)"

text \<open>\<^verbatim>\<open>initBackToTop\<close> (lines 273-286) and its click listener (lines 280-285).\<close>

definition initBackToTop :: "state \<Rightarrow> state" where
  "initBackToTop s =
     (case backToTop s of
        None \<Rightarrow> s
      | Some _ \<Rightarrow> addEventListener OnClick_backToTop (addEventListener OnScroll_handleBackToTop s))"

definition backToTop_click :: "state \<Rightarrow> state" where
  "backToTop_click s = scrollTo 0 ''smooth'' s"

section \<open>Scroll events\<close>

text \<open>
  A scroll event: the page is at the vertical offset \<open>y\<close>, and the browser calls the scroll
  listeners of the window in the order of their registration (lines 148 and 277).
\<close>

fun call_scroll_listener :: "listener \<Rightarrow> state \<Rightarrow> state" where
  "call_scroll_listener OnScroll_handleNavbarScroll s = handleNavbarScroll s"
| "call_scroll_listener OnScroll_handleBackToTop s = handleBackToTop s"
| "call_scroll_listener _ s = s"

definition window_scroll :: "real \<Rightarrow> state \<Rightarrow> state" where
  "window_scroll y s = fold call_scroll_listener (listeners s) (s\<lparr>scrollY := y\<rparr>)"

section \<open>Contact form\<close>

text \<open>The text of the notification (line 298), as code points.\<close>

definition success_message :: ustring where
  "success_message =
     [1588, 1603, 1585, 1575, 1611, 32, 1604, 1585, 1587, 1575, 1604, 1578, 1603, 33, 32,
      1587, 1606, 1578, 1608, 1575, 1589, 1604, 32, 1605, 1593, 1603, 32, 1602, 1585, 1610,
      1576, 1575, 1611, 46]"

definition alert :: "ustring \<Rightarrow> state \<Rightarrow> state" where
  "alert msg s = s\<lparr>alerts := alerts s @ [msg]\<rparr>"

text \<open>\<^verbatim>\<open>form.reset()\<close> gives every control its default value back.\<close>

definition reset :: "form_field list \<Rightarrow> form_field list" where
  "reset controls = map (\<lambda>f. f\<lparr>field_value := field_default f\<rparr>) controls"

text \<open>
  The submit listener (lines 294-302); \<^verbatim>\<open>this\<close> is the form, the element cached as
  \<^verbatim>\<open>DOM.contactForm\<close>. A listener exists only when the form does.
\<close>

definition contactForm_submit :: "event \<Rightarrow> state \<Rightarrow> event \<times> state" where
  "contactForm_submit e s =
     (let e' = e\<lparr>defaultPrevented := True\<rparr>;
          s1 = alert success_message s
      in (e', s1\<lparr>contactForm := map_option reset (contactForm s1)\<rparr>))"

text \<open>\<^verbatim>\<open>initContactForm\<close> (lines 291-303).\<close>

definition initContactForm :: "state \<Rightarrow> state" where
  "initContactForm s =
     (case contactForm s of
        None \<Rightarrow> s
      | Some _ \<Rightarrow> addEventListener OnSubmit_contactForm s)"

section \<open>Lazy loading of images\<close>

text \<open>
  An entry that the browser passes to the observer's callback: the position of the target
  image and whether it intersects the viewport grown by the root margin.
\<close>

record entry =
  target :: nat
  isIntersecting :: bool

text \<open>
  \<^verbatim>\<open>img.dataset.src\<close> is \<^verbatim>\<open>undefined\<close> without the attribute \<^verbatim>\<open>data-src\<close>, and the test of
  line 330 is a test of truthiness: the empty string fails it too.
\<close>

definition truthy :: "string option \<Rightarrow> bool" where
  "truthy v = (case v of None \<Rightarrow> False | Some str \<Rightarrow> str \<noteq> [])"

definition unobserve :: "nat \<Rightarrow> state \<Rightarrow> state" where
  "unobserve i s = s\<lparr>imageObserver := map_option (\<lambda>ob. ob\<lparr>observed := removeAll i (observed ob)\<rparr>) (imageObserver s)\<rparr>"

text \<open>
  The body of the loop of the observer's callback (lines 328-335). The target of an entry
  is an image of the document.
\<close>

definition observe_entry :: "entry \<Rightarrow> state \<Rightarrow> state" where
  "observe_entry en s =
     (if isIntersecting en \<and> target en < length (images s) then
        let i = target en; img = images s ! i in
        if truthy (img_data_src img)
        then unobserve i
               (s\<lparr>images := (images s)[i := img\<lparr>img_src := img_data_src img, img_data_src := None\<rparr>],
                  src_assignments := src_assignments s @ [(i, the (img_data_src img))]\<rparr>)
        else s
      else s)"

text \<open>The callback of the observer (lines 326-337).\<close>

definition imageObserver_callback :: "entry list \<Rightarrow> state \<Rightarrow> state" where
  "imageObserver_callback entries s = fold observe_entry entries s"

text \<open>
  \<^verbatim>\<open>initLazyLoading\<close> (lines 324-345): the selector \<^verbatim>\<open>img[data-src]\<close> matches every image that
  has the attribute, whatever its value.
\<close>

definition initLazyLoading :: "state \<Rightarrow> state" where
  "initLazyLoading s =
     (if hasIntersectionObserver s
      then s\<lparr>imageObserver :=
               Some \<lparr>rootMargin = ''50px'',
                     observed = filter (\<lambda>i. img_data_src (images s ! i) \<noteq> None) [0..<length (images s)]\<rparr>\<rparr>
      else s)"

section \<open>Initialization\<close>

text \<open>
  \<^verbatim>\<open>init\<close> (lines 369-397), from the state in which \<^verbatim>\<open>cacheDOMElements\<close> has filled the cache:
  the registrations in the order of lines 374-380. The animation library and the console
  have no part in the state.
\<close>

definition init :: "state \<Rightarrow> state" where
  "init s =
     initLazyLoading (initContactForm (initBackToTop (initCategoryFilter (initSmoothScroll
       (initNavigation (initLoader s))))))"

section \<open>Example pages\<close>

text \<open>
  A page that has every element the script looks for: three filter buttons, two bike cards,
  a contact form with two empty-by-default controls, three in-page links and three images
  (one with a deferred source, one whose \<^verbatim>\<open>data-src\<close> is empty, one without the attribute).
\<close>

definition sample_page :: state where
  "sample_page =
     \<lparr>loader = Some \<lparr>loader_opacity = ''1'', loader_display = ''flex''\<rparr>,
      navbar = Some [''navbar''],
      mobileToggle = Some (),
      mobileMenu = Some [''mobile-menu''],
      mobileClose = Some (),
      mobileLinks = Some [(), ()],
      filterBtns = Some
        [\<lparr>btn_classList = [''filter-btn'', ''active''], btn_category = Some ''all''\<rparr>,
         \<lparr>btn_classList = [''filter-btn''], btn_category = Some ''trail''\<rparr>,
         \<lparr>btn_classList = [''filter-btn''], btn_category = Some ''road''\<rparr>],
      bikeCards = Some
        [\<lparr>card_category = Some ''trail'', card_display = [], card_opacity = [], card_transform = []\<rparr>,
         \<lparr>card_category = Some ''road'', card_display = [], card_opacity = [], card_transform = []\<rparr>],
      backToTop = Some [''back-to-top''],
      contactForm = Some
        [\<lparr>field_value = ''Amina'', field_default = []\<rparr>,
         \<lparr>field_value = ''Test ride'', field_default = []\<rparr>],
      navLinks = Some [''#contact'', ''#missing'', ''#''],
      body_overflow = [],
      scrollY = 0,
      images =
        [\<lparr>img_src = None, img_data_src = Some ''hero.jpg''\<rparr>,
         \<lparr>img_src = None, img_data_src = Some []\<rparr>,
         \<lparr>img_src = Some ''logo.png'', img_data_src = None\<rparr>],
      alerts = [],
      scrollTo_calls = [],
      src_assignments = [],
      listeners = [],
      clock = 0,
      timers = [],
      next_timer_id = 1,
      navbarScroll_timeout = None,
      backToTop_timeout = None,
      hasIntersectionObserver = True,
      imageObserver = None\<rparr>"

text \<open>The sample page once \<^verbatim>\<open>init\<close> has run.\<close>

definition ready_page :: state where
  "ready_page = init sample_page"

text \<open>
  The sample page 100 ms after a click on the filter button \<^verbatim>\<open>trail\<close>: the road card is
  fading, and the timer that hides it is pending.
\<close>

definition refiltering_page :: state where
  "refiltering_page = elapse 100 (filterBtn_click 1 sample_page)"

text \<open>The same page, with a subject control that has a default value in the markup.\<close>

definition prefilled_page :: state where
  "prefilled_page =
     sample_page\<lparr>contactForm := Some
        [\<lparr>field_value = ''Amina'', field_default = []\<rparr>,
         \<lparr>field_value = ''Test ride'', field_default = ''General enquiry''\<rparr>]\<rparr>"


text \<open>
  A selector engine for the sample page: \<^verbatim>\<open>#contact\<close> is a section 1200 pixels down, the bare
  \<^verbatim>\<open>#\<close> is not a valid selector, nothing else matches.
\<close>

definition sample_querySelector :: querySelector where
  "sample_querySelector sel =
     (if sel = ''#contact'' then Inr (Some \<lparr>offsetTop = 1200\<rparr>)
      else if sel = ''#'' then Inl SyntaxError
      else Inr None)"

section \<open>Properties of the mobile menu\<close>

lemma set_classList_add: "set (classList_add c cl) = insert c (set cl)"
  by (auto simp: classList_add_def)

lemma set_classList_remove: "set (classList_remove c cl) = set cl - {c}"
  by (auto simp: classList_remove_def)

lemma classList_add_idem: "classList_add c (classList_add c cl) = classList_add c cl"
  by (simp add: classList_add_def)

lemma classList_remove_idem: "classList_remove c (classList_remove c cl) = classList_remove c cl"
  by (simp add: classList_remove_def)

text \<open>
  Claim C8. With the menu element present, calling \<^verbatim>\<open>toggleMobileMenu(b)\<close> twice leaves the
  same state as calling it once, for either value of \<open>b\<close>; showing adds the class
  \<^verbatim>\<open>active\<close> to the menu panel and sets the overflow of the body to \<^verbatim>\<open>hidden\<close> (the page
  scroll is locked), hiding removes the class and clears the overflow.
\<close>

theorem toggleMobileMenu_idempotent:
  assumes "mobileMenu s = Some menu"
  shows "toggleMobileMenu b (toggleMobileMenu b s) = toggleMobileMenu b s
    \<and> toggleMobileMenu True s =
        s\<lparr>mobileMenu := Some (classList_add ''active'' menu), body_overflow := ''hidden''\<rparr>
    \<and> classList_contains ''active'' (classList_add ''active'' menu)
    \<and> toggleMobileMenu False s =
        s\<lparr>mobileMenu := Some (classList_remove ''active'' menu), body_overflow := []\<rparr>
    \<and> \<not> classList_contains ''active'' (classList_remove ''active'' menu)"
  using assms
  by (simp add: toggleMobileMenu_def classList_add_idem classList_remove_idem
      classList_contains_def set_classList_add set_classList_remove)

theorem toggleMobileMenu_idempotent_witness:
  "mobileMenu sample_page = Some [''mobile-menu'']
   \<and> toggleMobileMenu True (toggleMobileMenu True sample_page) = toggleMobileMenu True sample_page
   \<and> mobileMenu (toggleMobileMenu True sample_page) = Some [''mobile-menu'', ''active'']
   \<and> body_overflow (toggleMobileMenu True sample_page) = ''hidden''"
proof -
  have h: "mobileMenu sample_page = Some [''mobile-menu'']"
    by (simp add: sample_page_def)
  note t = toggleMobileMenu_idempotent [OF h, of True]
  have "toggleMobileMenu True (toggleMobileMenu True sample_page) = toggleMobileMenu True sample_page"
    using t by blast
  moreover have "toggleMobileMenu True sample_page =
      sample_page\<lparr>mobileMenu := Some (classList_add ''active'' [''mobile-menu'']),
        body_overflow := ''hidden''\<rparr>"
    using t by blast
  ultimately show ?thesis
    using h by (simp add: classList_add_def)
qed

section \<open>Properties of the contact form\<close>

text \<open>
  Claim C6, as the code has it. For every submit event on the contact form, the listener
  prevents the default navigation, shows the notification and resets the form, and changes
  nothing else: every control gets its default value back. The controls are all empty
  afterwards when every default value is empty.
\<close>

theorem contactForm_submit_resets:
  assumes "contactForm s = Some controls"
  shows "contactForm_submit e s =
           (e\<lparr>defaultPrevented := True\<rparr>,
            s\<lparr>alerts := alerts s @ [success_message], contactForm := Some (reset controls)\<rparr>)
    \<and> length (reset controls) = length controls
    \<and> (\<forall>k < length controls. field_value (reset controls ! k) = field_default (controls ! k))
    \<and> ((\<forall>f \<in> set controls. field_default f = []) \<longrightarrow>
          (\<forall>f \<in> set (reset controls). field_value f = []))"
  using assms by (simp add: contactForm_submit_def alert_def reset_def)

theorem contactForm_submit_resets_witness:
  "contactForm sample_page =
     Some [\<lparr>field_value = ''Amina'', field_default = []\<rparr>, \<lparr>field_value = ''Test ride'', field_default = []\<rparr>]
   \<and> map field_default [\<lparr>field_value = ''Amina'', field_default = []\<rparr>,
                          \<lparr>field_value = ''Test ride'', field_default = []\<rparr>] = [[], []]
   \<and> defaultPrevented (fst (contactForm_submit \<lparr>defaultPrevented = False\<rparr> sample_page))
   \<and> alerts (snd (contactForm_submit \<lparr>defaultPrevented = False\<rparr> sample_page)) = [success_message]
   \<and> contactForm (snd (contactForm_submit \<lparr>defaultPrevented = False\<rparr> sample_page)) =
       Some [\<lparr>field_value = [], field_default = []\<rparr>, \<lparr>field_value = [], field_default = []\<rparr>]"
proof -
  have h: "contactForm sample_page =
     Some [\<lparr>field_value = ''Amina'', field_default = []\<rparr>, \<lparr>field_value = ''Test ride'', field_default = []\<rparr>]"
    by (simp add: sample_page_def)
  have a: "alerts sample_page = []"
    by (simp add: sample_page_def)
  from contactForm_submit_resets [OF h, of "\<lparr>defaultPrevented = False\<rparr>"]
  have "contactForm_submit \<lparr>defaultPrevented = False\<rparr> sample_page =
      (\<lparr>defaultPrevented = False\<rparr>\<lparr>defaultPrevented := True\<rparr>,
       sample_page\<lparr>alerts := alerts sample_page @ [success_message],
         contactForm := Some (reset [\<lparr>field_value = ''Amina'', field_default = []\<rparr>,
           \<lparr>field_value = ''Test ride'', field_default = []\<rparr>])\<rparr>)"
    by blast
  then show ?thesis
    using h a by (simp add: reset_def)
qed

text \<open>
  The claim C6 as stated, that every control is empty after a submit, fails on a form with
  a control that has a default value: the control shows that value again.
\<close>

theorem contactForm_submit_keeps_default_counterexample:
  "contactForm (snd (contactForm_submit \<lparr>defaultPrevented = False\<rparr> prefilled_page)) =
     Some [\<lparr>field_value = [], field_default = []\<rparr>,
           \<lparr>field_value = ''General enquiry'', field_default = ''General enquiry''\<rparr>]"
  by (simp add: contactForm_submit_def alert_def reset_def prefilled_page_def sample_page_def)

section \<open>Properties of smooth scrolling\<close>

text \<open>
  Claim C7, as the code has it. For every click on an in-page link (its href starts with
  \<^verbatim>\<open>#\<close>): if the selector resolves to an element, the default jump is cancelled and a smooth
  scroll is requested to that element's \<^verbatim>\<open>offsetTop\<close> minus 80, and nothing else changes; if
  the selector is valid and matches no element, the default jump is cancelled all the same,
  no scroll is requested and the page state is unchanged.
\<close>

theorem navLink_click_scrolls:
  assumes "startsWith ''#'' href"
  shows "(qs href = Inr (Some tgt) \<longrightarrow>
            navLink_click qs href e s =
              (None, e\<lparr>defaultPrevented := True\<rparr>,
               s\<lparr>scrollTo_calls := scrollTo_calls s @ [(offsetTop tgt - 80, ''smooth'')]\<rparr>))
       \<and> (qs href = Inr None \<longrightarrow>
            navLink_click qs href e s = (None, e\<lparr>defaultPrevented := True\<rparr>, s))"
  using assms by (simp add: navLink_click_def scrollTo_def)

theorem navLink_click_scrolls_witness:
  "startsWith ''#'' ''#contact''
   \<and> sample_querySelector ''#contact'' = Inr (Some \<lparr>offsetTop = 1200\<rparr>)
   \<and> navLink_click sample_querySelector ''#contact'' \<lparr>defaultPrevented = False\<rparr> sample_page =
       (None, \<lparr>defaultPrevented = True\<rparr>,
        sample_page\<lparr>scrollTo_calls := scrollTo_calls sample_page @ [(1120, ''smooth'')]\<rparr>)
   \<and> startsWith ''#'' ''#missing''
   \<and> sample_querySelector ''#missing'' = Inr None
   \<and> navLink_click sample_querySelector ''#missing'' \<lparr>defaultPrevented = False\<rparr> sample_page =
       (None, \<lparr>defaultPrevented = True\<rparr>, sample_page)"
proof -
  have h1: "startsWith ''#'' ''#contact''" and h2: "startsWith ''#'' ''#missing''"
    by (simp_all add: startsWith_def)
  have q1: "sample_querySelector ''#contact'' = Inr (Some \<lparr>offsetTop = 1200\<rparr>)"
    and q2: "sample_querySelector ''#missing'' = Inr None"
    by (simp_all add: sample_querySelector_def)
  show ?thesis
    using h1 h2 q1 q2
      navLink_click_scrolls [OF h1, of sample_querySelector "\<lparr>offsetTop = 1200\<rparr>"
        "\<lparr>defaultPrevented = False\<rparr>" sample_page]
      navLink_click_scrolls [OF h2, of sample_querySelector "\<lparr>offsetTop = 0\<rparr>"
        "\<lparr>defaultPrevented = False\<rparr>" sample_page]
    by simp
qed

text \<open>
  The claim C7 as stated, that a click whose target does not resolve leaves the default
  navigation as it was, fails: line 189 cancels the default before line 190 looks the
  target up.
\<close>

theorem navLink_click_missing_target_counterexample:
  "sample_querySelector ''#missing'' = Inr None
   \<and> navLink_click sample_querySelector ''#missing'' \<lparr>defaultPrevented = False\<rparr> sample_page
       \<noteq> (None, \<lparr>defaultPrevented = False\<rparr>, sample_page)
   \<and> defaultPrevented
       (fst (snd (navLink_click sample_querySelector ''#missing'' \<lparr>defaultPrevented = False\<rparr> sample_page)))"
  by (simp add: navLink_click_def startsWith_def sample_querySelector_def)

section \<open>Properties of the event loop\<close>

lemmas callback_defs =
  loaderFade_def loaderHide_def navbarScroll_def backToTopVisibility_def hideCard_def setTimeout_def

lemma timers_run_task:
  "tm \<in> set (timers (run_task k s)) \<longleftrightarrow>
     tm \<in> set (timers s) \<or>
     (k = LoaderFade \<and> loader s \<noteq> None \<and>
      tm = \<lparr>timer_id = next_timer_id s, due = clock s + 300, task = LoaderHide\<rparr>)"
  by (cases k) (auto simp: callback_defs split: option.splits)

lemma timers_fire_keeps:
  assumes "tm \<in> set (timers s)" and "tm \<noteq> u"
  shows "tm \<in> set (timers (fire u s))"
  using assms by (simp add: fire_def timers_run_task)

lemma timers_fire_task:
  assumes "tm \<in> set (timers (fire u s))"
  shows "tm \<in> set (timers s) \<or> task tm = LoaderHide"
proof -
  have "tm \<in> set (remove1 u (timers s)) \<or> task tm = LoaderHide"
    using assms by (auto simp: fire_def timers_run_task)
  then show ?thesis
    using set_remove1_subset [of u "timers s"] by auto
qed

lemma advance_to_invariant:
  assumes "P s"
    and step: "\<And>s u. P s \<Longrightarrow> u \<in> set (timers s) \<Longrightarrow> P (fire u s)"
    and tick: "\<And>s c. P s \<Longrightarrow> P (s\<lparr>clock := c\<rparr>)"
  shows "P (advance_to t s)"
  using assms(1)
proof (induction t s rule: advance_to.induct)
  case (1 t s)
  show ?case
  proof (cases "next_due t (timers s)")
    case None
    then have "advance_to t s = s\<lparr>clock := max (clock s) t\<rparr>"
      by (subst advance_to.simps) simp
    then show ?thesis
      using "1.prems" by (simp add: tick)
  next
    case (Some u)
    then have "u \<in> set (timers s)"
      by (rule next_due_SomeD)
    then have "P (fire u s)"
      using "1.prems" by (rule step [rotated])
    then have "P (advance_to t (fire u s))"
      using Some by (rule "1.IH" [rotated])
    moreover have "advance_to t s = advance_to t (fire u s)"
      using Some by (subst advance_to.simps) simp
    ultimately show ?thesis
      by simp
  qed
qed

lemma advance_to_runs:
  assumes "tm \<in> set (timers s)" and "due tm \<le> t" and "I s"
    and step_I: "\<And>s u. I s \<Longrightarrow> u \<in> set (timers s) \<Longrightarrow> I (fire u s)"
    and tick_I: "\<And>s c. I s \<Longrightarrow> I (s\<lparr>clock := c\<rparr>)"
    and est: "\<And>s. I s \<Longrightarrow> tm \<in> set (timers s) \<Longrightarrow> Q (fire tm s)"
    and step_Q: "\<And>s u. I s \<Longrightarrow> Q s \<Longrightarrow> u \<in> set (timers s) \<Longrightarrow> Q (fire u s)"
    and tick_Q: "\<And>s c. Q s \<Longrightarrow> Q (s\<lparr>clock := c\<rparr>)"
  shows "Q (advance_to t s)"
  using assms(1,2,3)
proof (induction t s rule: advance_to.induct)
  case (1 t s)
  show ?case
  proof (cases "next_due t (timers s)")
    case None
    then have "t < due tm"
      using "1.prems"(1) by (simp add: next_due_None_iff)
    then show ?thesis
      using "1.prems"(2) by simp
  next
    case (Some u)
    then have u: "u \<in> set (timers s)"
      by (rule next_due_SomeD)
    have unfold: "advance_to t s = advance_to t (fire u s)"
      using Some by (subst advance_to.simps) simp
    have I': "I (fire u s)"
      using "1.prems"(3) u by (rule step_I)
    show ?thesis
    proof (cases "u = tm")
      case True
      have "I (fire tm s) \<and> Q (fire tm s)"
        using I' True est [OF "1.prems"(3,1)] by simp
      then have "I (advance_to t (fire tm s)) \<and> Q (advance_to t (fire tm s))"
        by (rule advance_to_invariant) (auto intro: step_I step_Q tick_I tick_Q)
      then show ?thesis
        using unfold True by simp
    next
      case False
      then have "tm \<in> set (timers (fire u s))"
        using "1.prems"(1) by (simp add: timers_fire_keeps)
      then have "Q (advance_to t (fire u s))"
        using Some "1.prems"(2) I' "1.IH" by blast
      then show ?thesis
        using unfold by simp
    qed
  qed
qed

subsection \<open>Listeners of the scroll event\<close>

text \<open>
  A handle stored by a debounced function is one that \<^verbatim>\<open>setTimeout\<close> has given out, so it is
  below the next handle. This holds when no handle is stored yet, and every call of a
  scroll listener keeps it.
\<close>

definition handles_fresh :: "state \<Rightarrow> bool" where
  "handles_fresh s \<longleftrightarrow>
     (\<forall>h. navbarScroll_timeout s = Some h \<longrightarrow> h < next_timer_id s) \<and>
     (\<forall>h. backToTop_timeout s = Some h \<longrightarrow> h < next_timer_id s)"

lemmas debounced_defs =
  handleNavbarScroll_def handleBackToTop_def debounce_def setTimeout_def clearTimeout_def

lemma call_scroll_listener_frame:
  "navbar (call_scroll_listener l s) = navbar s"
  "backToTop (call_scroll_listener l s) = backToTop s"
  "scrollY (call_scroll_listener l s) = scrollY s"
  "clock (call_scroll_listener l s) = clock s"
  by (cases l; simp add: debounced_defs split: option.splits)+

lemma handles_fresh_call: "handles_fresh s \<Longrightarrow> handles_fresh (call_scroll_listener l s)"
  by (cases l) (auto simp: handles_fresh_def debounced_defs split: option.splits)

lemma fold_call_frame:
  "navbar (fold call_scroll_listener ls s) = navbar s"
  "backToTop (fold call_scroll_listener ls s) = backToTop s"
  "scrollY (fold call_scroll_listener ls s) = scrollY s"
  "clock (fold call_scroll_listener ls s) = clock s"
  by (induction ls arbitrary: s; simp add: call_scroll_listener_frame)+

text \<open>
  So do the timers that fire and the clicks on the filter buttons: they store no handle and
  only take new ones.
\<close>

definition handles_kept :: "state \<Rightarrow> state \<Rightarrow> bool" where
  "handles_kept s s' \<longleftrightarrow>
     next_timer_id s \<le> next_timer_id s' \<and> navbarScroll_timeout s' = navbarScroll_timeout s
     \<and> backToTop_timeout s' = backToTop_timeout s"

lemma handles_kept_fresh: "handles_kept s s' \<Longrightarrow> handles_fresh s \<Longrightarrow> handles_fresh s'"
  by (auto simp: handles_kept_def handles_fresh_def)

lemma handles_kept_refl: "handles_kept s s"
  by (simp add: handles_kept_def)

lemma handles_kept_trans: "handles_kept s s' \<Longrightarrow> handles_kept s' s'' \<Longrightarrow> handles_kept s s''"
  by (auto simp: handles_kept_def)

lemma handles_kept_fire: "handles_kept s (fire u s)"
  by (cases "task u") (auto simp: handles_kept_def fire_def callback_defs split: option.splits)

lemma handles_fresh_advance_to:
  assumes "handles_fresh s"
  shows "handles_fresh (advance_to t s)"
  using assms
proof (rule advance_to_invariant)
  show "handles_fresh (fire u s')" if "handles_fresh s'" for s' u
    using handles_kept_fire that by (rule handles_kept_fresh)
  show "handles_fresh (s'\<lparr>clock := c\<rparr>)" if "handles_fresh s'" for s' c
    using that by (simp add: handles_fresh_def)
qed

lemma handles_fresh_window_scroll:
  assumes "handles_fresh s"
  shows "handles_fresh (window_scroll y s)"
proof -
  have "handles_fresh (fold call_scroll_listener ls s')" if "handles_fresh s'" for ls s'
    using that by (induction ls arbitrary: s') (simp_all add: handles_fresh_call)
  moreover have "handles_fresh (s\<lparr>scrollY := y\<rparr>)"
    using assms by (simp add: handles_fresh_def)
  ultimately show ?thesis
    by (simp add: window_scroll_def)
qed

lemma handles_kept_filterCard: "handles_kept s (filterCard c i s)"
  by (simp add: handles_kept_def filterCard_def setTimeout_def Let_def split: option.splits)

lemma handles_kept_fold_filterCard: "handles_kept s (fold (filterCard c) is s)"
proof (induction "is" arbitrary: s)
  case Nil
  show ?case by (simp add: handles_kept_refl)
next
  case (Cons i "is")
  show ?case
    using handles_kept_filterCard [of s c i] Cons [of "filterCard c i s"]
    by (simp add: handles_kept_trans)
qed

lemma handles_fresh_filterBtn_click:
  assumes "handles_fresh s"
  shows "handles_fresh (filterBtn_click i s)"
proof -
  have "handles_kept s' (filterBikes c s')" for c s'
    by (cases "bikeCards s'") (simp_all add: filterBikes_def handles_kept_refl handles_kept_fold_filterCard)
  moreover have "handles_fresh (s\<lparr>filterBtns := b\<rparr>)" for b
    using assms by (simp add: handles_fresh_def)
  ultimately show ?thesis
    by (auto simp: filterBtn_click_def Let_def assms split: option.splits intro: handles_kept_fresh)
qed

lemma scrollY_fire: "scrollY (fire u s) = scrollY s"
  by (cases "task u") (simp_all add: fire_def callback_defs split: option.splits)

lemma classList_remove_add: "classList_remove c (classList_add c cl) = classList_remove c cl"
  by (simp add: classList_add_def classList_remove_def)

lemma classList_contains_add: "classList_contains c (classList_add c cl)"
  by (simp add: classList_contains_def set_classList_add)

lemma classList_contains_remove: "\<not> classList_contains c (classList_remove c cl)"
  by (simp add: classList_contains_def set_classList_remove)

lemma ready_page_facts:
  "navbar ready_page = Some [''navbar'']" "backToTop ready_page = Some [''back-to-top'']"
  "handles_fresh ready_page"
  "OnScroll_handleNavbarScroll \<in> set (listeners ready_page)"
  "OnScroll_handleBackToTop \<in> set (listeners ready_page)"
  by (simp_all add: ready_page_def init_def initLazyLoading_def initContactForm_def initBackToTop_def
      initCategoryFilter_def initSmoothScroll_def initNavigation_def initLoader_def addEventListener_def
      sample_page_def handles_fresh_def Let_def upt_rec)

section \<open>Properties of the navbar scroll effect\<close>

lemma handleNavbarScroll_timer:
  "\<lparr>timer_id = next_timer_id s, due = clock s + 10, task = NavbarScroll\<rparr>
     \<in> set (timers (handleNavbarScroll s))"
  by (simp add: handleNavbarScroll_def debounce_def setTimeout_def clearTimeout_def split: option.splits)

lemma handleNavbarScroll_page:
  "navbar (handleNavbarScroll s) = navbar s" "scrollY (handleNavbarScroll s) = scrollY s"
  "clock (handleNavbarScroll s) = clock s"
  by (simp_all add: handleNavbarScroll_def debounce_def setTimeout_def clearTimeout_def split: option.splits)

lemma navbar_fire:
  "navbar (fire u s) =
     (if task u = NavbarScroll
      then map_option (\<lambda>nb. if scrollThreshold < scrollY s then classList_add ''scrolled'' nb
                               else classList_remove ''scrolled'' nb) (navbar s)
      else navbar s)"
  by (cases "task u") (simp_all add: fire_def callback_defs split: option.splits)

definition navbar_ready :: "classList \<Rightarrow> real \<Rightarrow> state \<Rightarrow> bool" where
  "navbar_ready nb y s \<longleftrightarrow>
     scrollY s = y \<and>
     (\<exists>nb'. navbar s = Some nb' \<and> classList_remove ''scrolled'' nb' = classList_remove ''scrolled'' nb)"

definition navbar_settled :: "classList \<Rightarrow> real \<Rightarrow> state \<Rightarrow> bool" where
  "navbar_settled nb y s \<longleftrightarrow>
     (\<exists>nb'. navbar s = Some nb' \<and>
        (classList_contains ''scrolled'' nb' \<longleftrightarrow> scrollThreshold < y) \<and>
        classList_remove ''scrolled'' nb' = classList_remove ''scrolled'' nb)"

lemma navbar_ready_fire:
  assumes "navbar_ready nb y s"
  shows "navbar_ready nb y (fire u s)"
proof -
  obtain nb' where "scrollY s = y" "navbar s = Some nb'"
    "classList_remove ''scrolled'' nb' = classList_remove ''scrolled'' nb"
    using assms unfolding navbar_ready_def by blast
  then show ?thesis
    unfolding navbar_ready_def
    by (simp add: scrollY_fire navbar_fire classList_remove_add classList_remove_idem)
qed

lemma navbar_settled_est:
  assumes "navbar_ready nb y s" and "task u = NavbarScroll"
  shows "navbar_settled nb y (fire u s)"
proof -
  obtain nb' where "scrollY s = y" "navbar s = Some nb'"
    "classList_remove ''scrolled'' nb' = classList_remove ''scrolled'' nb"
    using assms(1) unfolding navbar_ready_def by blast
  then show ?thesis
    unfolding navbar_settled_def using assms(2)
    by (simp add: navbar_fire classList_remove_add classList_remove_idem
        classList_contains_add classList_contains_remove)
qed

lemma navbar_settled_fire:
  assumes "navbar_ready nb y s" and "navbar_settled nb y s"
  shows "navbar_settled nb y (fire u s)"
proof (cases "task u = NavbarScroll")
  case True
  with assms(1) show ?thesis
    by (rule navbar_settled_est)
next
  case False
  then show ?thesis
    using assms(2) unfolding navbar_settled_def by (simp add: navbar_fire)
qed

text \<open>
  The timer of the debounced handler is pending, due 10 ms after the time \<open>c\<close>, and the
  back-to-top handler does not hold its handle.
\<close>

definition navbar_armed :: "nat \<Rightarrow> state \<Rightarrow> bool" where
  "navbar_armed c s \<longleftrightarrow>
     (\<exists>tm \<in> set (timers s). task tm = NavbarScroll \<and> due tm = c + 10
        \<and> timer_id tm < next_timer_id s \<and> backToTop_timeout s \<noteq> Some (timer_id tm))"

lemma navbar_armed_intro:
  assumes "handles_fresh s"
  shows "navbar_armed (clock s) (handleNavbarScroll s)"
  using assms
  by (auto simp: navbar_armed_def handles_fresh_def debounced_defs split: option.splits)

lemma navbar_armed_call:
  assumes "handles_fresh s" and "navbar_armed (clock s) s"
  shows "navbar_armed (clock s) (call_scroll_listener l s)"
proof (cases "l = OnScroll_handleNavbarScroll")
  case True
  then show ?thesis
    using navbar_armed_intro [OF assms(1)] by simp
next
  case False
  obtain tm where tm: "tm \<in> set (timers s)" "task tm = NavbarScroll" "due tm = clock s + 10"
    "timer_id tm < next_timer_id s" "backToTop_timeout s \<noteq> Some (timer_id tm)"
    using assms(2) unfolding navbar_armed_def by blast
  show ?thesis
  proof (cases "l = OnScroll_handleBackToTop")
    case True
    have "tm \<in> set (timers (handleBackToTop s))"
      using tm by (auto simp: debounced_defs split: option.splits)
    moreover have "timer_id tm < next_timer_id (handleBackToTop s)"
      "backToTop_timeout (handleBackToTop s) \<noteq> Some (timer_id tm)"
      using tm by (auto simp: debounced_defs split: option.splits)
    ultimately show ?thesis
      using tm True unfolding navbar_armed_def
      by (auto simp: call_scroll_listener_frame [of OnScroll_handleBackToTop s, simplified])
  next
    case False
    with \<open>l \<noteq> OnScroll_handleNavbarScroll\<close> have "call_scroll_listener l s = s"
      by (cases l) simp_all
    then show ?thesis using assms(2) by simp
  qed
qed

lemma navbar_armed_fold:
  assumes "handles_fresh s"
    and "navbar_armed (clock s) s \<or> OnScroll_handleNavbarScroll \<in> set ls"
  shows "navbar_armed (clock s) (fold call_scroll_listener ls s)"
  using assms
proof (induction ls arbitrary: s)
  case Nil
  then show ?case by simp
next
  case (Cons l ls)
  let ?s1 = "call_scroll_listener l s"
  have f: "handles_fresh ?s1"
    using Cons.prems(1) by (rule handles_fresh_call)
  have c: "clock ?s1 = clock s"
    by (rule call_scroll_listener_frame)
  have "navbar_armed (clock ?s1) ?s1 \<or> OnScroll_handleNavbarScroll \<in> set ls"
  proof (cases "navbar_armed (clock s) s")
    case True
    then show ?thesis
      using navbar_armed_call [OF Cons.prems(1)] c by simp
  next
    case False
    show ?thesis
    proof (cases "l = OnScroll_handleNavbarScroll")
      case True
      then show ?thesis
        using navbar_armed_intro [OF Cons.prems(1)] c by simp
    next
      case False
      then show ?thesis
        using Cons.prems(2) \<open>\<not> navbar_armed (clock s) s\<close> by simp
    qed
  qed
  with f have "navbar_armed (clock ?s1) (fold call_scroll_listener ls ?s1)"
    by (rule Cons.IH)
  then show ?case
    using c by simp
qed


lemma navbar_settles:
  assumes "tm \<in> set (timers s)" and "task tm = NavbarScroll" and "due tm \<le> t"
    and "navbar_ready nb y s"
  shows "navbar_settled nb y (advance_to t s)"
  using assms(1,3,4)
proof (rule advance_to_runs [where I = "navbar_ready nb y"])
  show "navbar_ready nb y (fire u s')" if "navbar_ready nb y s'" for s' u
    using that by (rule navbar_ready_fire)
  show "navbar_ready nb y (s'\<lparr>clock := c\<rparr>)" if "navbar_ready nb y s'" for s' c
    using that by (simp add: navbar_ready_def)
  show "navbar_settled nb y (fire tm s')" if "navbar_ready nb y s'" for s'
    using that assms(2) by (rule navbar_settled_est)
  show "navbar_settled nb y (fire u s')"
    if "navbar_ready nb y s'" "navbar_settled nb y s'" for s' u
    using that by (rule navbar_settled_fire)
  show "navbar_settled nb y (s'\<lparr>clock := c\<rparr>)" if "navbar_settled nb y s'" for s' c
    using that by (simp add: navbar_settled_def)
qed

text \<open>
  Claim C3. With the navbar present, for every vertical scroll offset \<open>y\<close> and from every
  state: once the debounced handler has been called at that offset and its wait of 10 ms
  has gone by with no further scroll event, the navbar has the class \<^verbatim>\<open>scrolled\<close> if \<open>y\<close>
  exceeds 50 and lacks it if \<open>y\<close> is at most 50; its other classes are as before. The same
  holds when the handler is called by a scroll event, as one of the scroll listeners of the
  window.
\<close>

theorem navbar_scrolled_after_debounce:
  assumes "navbar s = Some nb" and "10 \<le> d"
  shows "(\<exists>nb'. navbar (elapse d (handleNavbarScroll (s\<lparr>scrollY := y\<rparr>))) = Some nb'
           \<and> (classList_contains ''scrolled'' nb' \<longleftrightarrow> 50 < y)
           \<and> classList_remove ''scrolled'' nb' = classList_remove ''scrolled'' nb)
       \<and> (handles_fresh s \<and> OnScroll_handleNavbarScroll \<in> set (listeners s) \<longrightarrow>
           (\<exists>nb'. navbar (elapse d (window_scroll y s)) = Some nb'
             \<and> (classList_contains ''scrolled'' nb' \<longleftrightarrow> 50 < y)
             \<and> classList_remove ''scrolled'' nb' = classList_remove ''scrolled'' nb))"
proof (intro conjI impI)
  let ?s0 = "s\<lparr>scrollY := y\<rparr>"
  let ?s1 = "handleNavbarScroll ?s0"
  let ?tm = "\<lparr>timer_id = next_timer_id ?s0, due = clock ?s0 + 10, task = NavbarScroll\<rparr>"
  have "?tm \<in> set (timers ?s1)"
    by (rule handleNavbarScroll_timer)
  moreover have "task ?tm = NavbarScroll"
    by simp
  moreover have "due ?tm \<le> clock ?s1 + d"
    using assms(2) by (simp add: handleNavbarScroll_page)
  moreover have "navbar_ready nb y ?s1"
    using assms(1) by (simp add: navbar_ready_def handleNavbarScroll_page)
  ultimately have "navbar_settled nb y (advance_to (clock ?s1 + d) ?s1)"
    by (rule navbar_settles)
  then show "\<exists>nb'. navbar (elapse d ?s1) = Some nb'
           \<and> (classList_contains ''scrolled'' nb' \<longleftrightarrow> 50 < y)
           \<and> classList_remove ''scrolled'' nb' = classList_remove ''scrolled'' nb"
    by (simp add: elapse_def navbar_settled_def scrollThreshold_def)
next
  assume reg: "handles_fresh s \<and> OnScroll_handleNavbarScroll \<in> set (listeners s)"
  let ?s0 = "s\<lparr>scrollY := y\<rparr>"
  let ?s1 = "window_scroll y s"
  have s1: "?s1 = fold call_scroll_listener (listeners ?s0) ?s0"
    by (simp add: window_scroll_def)
  have "handles_fresh ?s0" "OnScroll_handleNavbarScroll \<in> set (listeners ?s0)"
    using reg by (simp_all add: handles_fresh_def)
  then have "navbar_armed (clock ?s0) ?s1"
    unfolding s1 by (intro navbar_armed_fold) simp_all
  then obtain tm where tm: "tm \<in> set (timers ?s1)" "task tm = NavbarScroll" "due tm = clock s + 10"
    unfolding navbar_armed_def by auto
  have ck: "clock ?s1 = clock s"
    unfolding s1 by (simp add: fold_call_frame)
  have "due tm \<le> clock ?s1 + d"
    using tm(3) ck assms(2) by simp
  moreover have "navbar_ready nb y ?s1"
    using assms(1) unfolding s1 by (simp add: navbar_ready_def fold_call_frame)
  ultimately have "navbar_settled nb y (advance_to (clock ?s1 + d) ?s1)"
    using tm(1,2) by (intro navbar_settles [where tm = tm])
  then show "\<exists>nb'. navbar (elapse d ?s1) = Some nb'
           \<and> (classList_contains ''scrolled'' nb' \<longleftrightarrow> 50 < y)
           \<and> classList_remove ''scrolled'' nb' = classList_remove ''scrolled'' nb"
    by (simp add: elapse_def navbar_settled_def scrollThreshold_def)
qed

theorem navbar_scrolled_after_debounce_witness:
  "navbar ready_page = Some [''navbar''] \<and> (10::nat) \<le> 10
   \<and> handles_fresh ready_page \<and> OnScroll_handleNavbarScroll \<in> set (listeners ready_page)
   \<and> (\<exists>nb'. navbar (elapse 10 (window_scroll 51 ready_page)) = Some nb'
          \<and> classList_contains ''scrolled'' nb')
   \<and> (\<exists>nb'. navbar (elapse 10 (window_scroll 50 ready_page)) = Some nb'
          \<and> \<not> classList_contains ''scrolled'' nb')
   \<and> (\<exists>nb'. navbar (elapse 10 (handleNavbarScroll (ready_page\<lparr>scrollY := 51\<rparr>))) = Some nb'
          \<and> classList_contains ''scrolled'' nb')"
proof -
  have d: "(10::nat) \<le> 10"
    by simp
  note h = ready_page_facts(1)
  show ?thesis
    using h d ready_page_facts(3,4) navbar_scrolled_after_debounce [OF h d, of 51]
      navbar_scrolled_after_debounce [OF h d, of 50]
    by auto
qed

section \<open>Properties of the back-to-top control\<close>

lemma handleBackToTop_timer:
  "\<lparr>timer_id = next_timer_id s, due = clock s + 100, task = BackToTop\<rparr>
     \<in> set (timers (handleBackToTop s))"
  by (simp add: handleBackToTop_def debounce_def setTimeout_def clearTimeout_def split: option.splits)

lemma handleBackToTop_page:
  "backToTop (handleBackToTop s) = backToTop s" "scrollY (handleBackToTop s) = scrollY s"
  "clock (handleBackToTop s) = clock s"
  by (simp_all add: handleBackToTop_def debounce_def setTimeout_def clearTimeout_def split: option.splits)

lemma backToTop_fire:
  "backToTop (fire u s) =
     (if task u = BackToTop
      then map_option (\<lambda>b. if backToTopThreshold < scrollY s then classList_add ''visible'' b
                               else classList_remove ''visible'' b) (backToTop s)
      else backToTop s)"
  by (cases "task u") (simp_all add: fire_def callback_defs split: option.splits)

definition backToTop_ready :: "classList \<Rightarrow> real \<Rightarrow> state \<Rightarrow> bool" where
  "backToTop_ready b y s \<longleftrightarrow>
     scrollY s = y \<and>
     (\<exists>b'. backToTop s = Some b' \<and> classList_remove ''visible'' b' = classList_remove ''visible'' b)"

definition backToTop_settled :: "classList \<Rightarrow> real \<Rightarrow> state \<Rightarrow> bool" where
  "backToTop_settled b y s \<longleftrightarrow>
     (\<exists>b'. backToTop s = Some b' \<and>
        (classList_contains ''visible'' b' \<longleftrightarrow> backToTopThreshold < y) \<and>
        classList_remove ''visible'' b' = classList_remove ''visible'' b)"

lemma backToTop_ready_fire:
  assumes "backToTop_ready b y s"
  shows "backToTop_ready b y (fire u s)"
proof -
  obtain b' where "scrollY s = y" "backToTop s = Some b'"
    "classList_remove ''visible'' b' = classList_remove ''visible'' b"
    using assms unfolding backToTop_ready_def by blast
  then show ?thesis
    unfolding backToTop_ready_def
    by (simp add: scrollY_fire backToTop_fire classList_remove_add classList_remove_idem)
qed

lemma backToTop_settled_est:
  assumes "backToTop_ready b y s" and "task u = BackToTop"
  shows "backToTop_settled b y (fire u s)"
proof -
  obtain b' where "scrollY s = y" "backToTop s = Some b'"
    "classList_remove ''visible'' b' = classList_remove ''visible'' b"
    using assms(1) unfolding backToTop_ready_def by blast
  then show ?thesis
    unfolding backToTop_settled_def using assms(2)
    by (simp add: backToTop_fire classList_remove_add classList_remove_idem
        classList_contains_add classList_contains_remove)
qed

lemma backToTop_settled_fire:
  assumes "backToTop_ready b y s" and "backToTop_settled b y s"
  shows "backToTop_settled b y (fire u s)"
proof (cases "task u = BackToTop")
  case True
  with assms(1) show ?thesis
    by (rule backToTop_settled_est)
next
  case False
  then show ?thesis
    using assms(2) unfolding backToTop_settled_def by (simp add: backToTop_fire)
qed

text \<open>
  The timer of the debounced handler is pending, due 100 ms after the time \<open>c\<close>, and the
  navbar handler does not hold its handle.
\<close>

definition backToTop_armed :: "nat \<Rightarrow> state \<Rightarrow> bool" where
  "backToTop_armed c s \<longleftrightarrow>
     (\<exists>tm \<in> set (timers s). task tm = BackToTop \<and> due tm = c + 100
        \<and> timer_id tm < next_timer_id s \<and> navbarScroll_timeout s \<noteq> Some (timer_id tm))"

lemma backToTop_armed_intro:
  assumes "handles_fresh s"
  shows "backToTop_armed (clock s) (handleBackToTop s)"
  using assms
  by (auto simp: backToTop_armed_def handles_fresh_def debounced_defs split: option.splits)

lemma backToTop_armed_call:
  assumes "handles_fresh s" and "backToTop_armed (clock s) s"
  shows "backToTop_armed (clock s) (call_scroll_listener l s)"
proof (cases "l = OnScroll_handleBackToTop")
  case True
  then show ?thesis
    using backToTop_armed_intro [OF assms(1)] by simp
next
  case False
  obtain tm where tm: "tm \<in> set (timers s)" "task tm = BackToTop" "due tm = clock s + 100"
    "timer_id tm < next_timer_id s" "navbarScroll_timeout s \<noteq> Some (timer_id tm)"
    using assms(2) unfolding backToTop_armed_def by blast
  show ?thesis
  proof (cases "l = OnScroll_handleNavbarScroll")
    case True
    have "tm \<in> set (timers (handleNavbarScroll s))"
      using tm by (auto simp: debounced_defs split: option.splits)
    moreover have "timer_id tm < next_timer_id (handleNavbarScroll s)"
      "navbarScroll_timeout (handleNavbarScroll s) \<noteq> Some (timer_id tm)"
      using tm by (auto simp: debounced_defs split: option.splits)
    ultimately show ?thesis
      using tm True unfolding backToTop_armed_def
      by (auto simp: call_scroll_listener_frame [of OnScroll_handleNavbarScroll s, simplified])
  next
    case False
    with \<open>l \<noteq> OnScroll_handleBackToTop\<close> have "call_scroll_listener l s = s"
      by (cases l) simp_all
    then show ?thesis using assms(2) by simp
  qed
qed

lemma backToTop_armed_fold:
  assumes "handles_fresh s"
    and "backToTop_armed (clock s) s \<or> OnScroll_handleBackToTop \<in> set ls"
  shows "backToTop_armed (clock s) (fold call_scroll_listener ls s)"
  using assms
proof (induction ls arbitrary: s)
  case Nil
  then show ?case by simp
next
  case (Cons l ls)
  let ?s1 = "call_scroll_listener l s"
  have f: "handles_fresh ?s1"
    using Cons.prems(1) by (rule handles_fresh_call)
  have c: "clock ?s1 = clock s"
    by (rule call_scroll_listener_frame)
  have "backToTop_armed (clock ?s1) ?s1 \<or> OnScroll_handleBackToTop \<in> set ls"
  proof (cases "backToTop_armed (clock s) s")
    case True
    then show ?thesis
      using backToTop_armed_call [OF Cons.prems(1)] c by simp
  next
    case False
    show ?thesis
    proof (cases "l = OnScroll_handleBackToTop")
      case True
      then show ?thesis
        using backToTop_armed_intro [OF Cons.prems(1)] c by simp
    next
      case False
      then show ?thesis
        using Cons.prems(2) \<open>\<not> backToTop_armed (clock s) s\<close> by simp
    qed
  qed
  with f have "backToTop_armed (clock ?s1) (fold call_scroll_listener ls ?s1)"
    by (rule Cons.IH)
  then show ?case
    using c by simp
qed

lemma backToTop_settles:
  assumes "tm \<in> set (timers s)" and "task tm = BackToTop" and "due tm \<le> t"
    and "backToTop_ready b y s"
  shows "backToTop_settled b y (advance_to t s)"
  using assms(1,3,4)
proof (rule advance_to_runs [where I = "backToTop_ready b y"])
  show "backToTop_ready b y (fire u s')" if "backToTop_ready b y s'" for s' u
    using that by (rule backToTop_ready_fire)
  show "backToTop_ready b y (s'\<lparr>clock := c\<rparr>)" if "backToTop_ready b y s'" for s' c
    using that by (simp add: backToTop_ready_def)
  show "backToTop_settled b y (fire tm s')" if "backToTop_ready b y s'" for s'
    using that assms(2) by (rule backToTop_settled_est)
  show "backToTop_settled b y (fire u s')"
    if "backToTop_ready b y s'" "backToTop_settled b y s'" for s' u
    using that by (rule backToTop_settled_fire)
  show "backToTop_settled b y (s'\<lparr>clock := c\<rparr>)" if "backToTop_settled b y s'" for s' c
    using that by (simp add: backToTop_settled_def)
qed

text \<open>
  Claim C4. With the back-to-top control present, for every vertical scroll offset \<open>y\<close> and
  from every state: once the debounced handler has been called at that offset and its wait
  of 100 ms has gone by with no further scroll event, the control has the class
  \<^verbatim>\<open>visible\<close> if \<open>y\<close> exceeds 300 and lacks it if \<open>y\<close> is at most 300; its other classes are as
  before. The same holds when the handler is called by a scroll event, as one of the scroll
  listeners of the window.
\<close>

theorem backToTop_visible_after_debounce:
  assumes "backToTop s = Some b" and "100 \<le> d"
  shows "(\<exists>b'. backToTop (elapse d (handleBackToTop (s\<lparr>scrollY := y\<rparr>))) = Some b'
           \<and> (classList_contains ''visible'' b' \<longleftrightarrow> 300 < y)
           \<and> classList_remove ''visible'' b' = classList_remove ''visible'' b)
       \<and> (handles_fresh s \<and> OnScroll_handleBackToTop \<in> set (listeners s) \<longrightarrow>
           (\<exists>b'. backToTop (elapse d (window_scroll y s)) = Some b'
             \<and> (classList_contains ''visible'' b' \<longleftrightarrow> 300 < y)
             \<and> classList_remove ''visible'' b' = classList_remove ''visible'' b))"
proof (intro conjI impI)
  let ?s0 = "s\<lparr>scrollY := y\<rparr>"
  let ?s1 = "handleBackToTop ?s0"
  let ?tm = "\<lparr>timer_id = next_timer_id ?s0, due = clock ?s0 + 100, task = BackToTop\<rparr>"
  have "?tm \<in> set (timers ?s1)"
    by (rule handleBackToTop_timer)
  moreover have "task ?tm = BackToTop"
    by simp
  moreover have "due ?tm \<le> clock ?s1 + d"
    using assms(2) by (simp add: handleBackToTop_page)
  moreover have "backToTop_ready b y ?s1"
    using assms(1) by (simp add: backToTop_ready_def handleBackToTop_page)
  ultimately have "backToTop_settled b y (advance_to (clock ?s1 + d) ?s1)"
    by (rule backToTop_settles)
  then show "\<exists>b'. backToTop (elapse d ?s1) = Some b'
           \<and> (classList_contains ''visible'' b' \<longleftrightarrow> 300 < y)
           \<and> classList_remove ''visible'' b' = classList_remove ''visible'' b"
    by (simp add: elapse_def backToTop_settled_def backToTopThreshold_def)
next
  assume reg: "handles_fresh s \<and> OnScroll_handleBackToTop \<in> set (listeners s)"
  let ?s0 = "s\<lparr>scrollY := y\<rparr>"
  let ?s1 = "window_scroll y s"
  have s1: "?s1 = fold call_scroll_listener (listeners ?s0) ?s0"
    by (simp add: window_scroll_def)
  have "handles_fresh ?s0" "OnScroll_handleBackToTop \<in> set (listeners ?s0)"
    using reg by (simp_all add: handles_fresh_def)
  then have "backToTop_armed (clock ?s0) ?s1"
    unfolding s1 by (intro backToTop_armed_fold) simp_all
  then obtain tm where tm: "tm \<in> set (timers ?s1)" "task tm = BackToTop" "due tm = clock s + 100"
    unfolding backToTop_armed_def by auto
  have ck: "clock ?s1 = clock s"
    unfolding s1 by (simp add: fold_call_frame)
  have "due tm \<le> clock ?s1 + d"
    using tm(3) ck assms(2) by simp
  moreover have "backToTop_ready b y ?s1"
    using assms(1) unfolding s1 by (simp add: backToTop_ready_def fold_call_frame)
  ultimately have "backToTop_settled b y (advance_to (clock ?s1 + d) ?s1)"
    using tm(1,2) by (intro backToTop_settles [where tm = tm])
  then show "\<exists>b'. backToTop (elapse d ?s1) = Some b'
           \<and> (classList_contains ''visible'' b' \<longleftrightarrow> 300 < y)
           \<and> classList_remove ''visible'' b' = classList_remove ''visible'' b"
    by (simp add: elapse_def backToTop_settled_def backToTopThreshold_def)
qed

theorem backToTop_visible_after_debounce_witness:
  "backToTop ready_page = Some [''back-to-top''] \<and> (100::nat) \<le> 100
   \<and> handles_fresh ready_page \<and> OnScroll_handleBackToTop \<in> set (listeners ready_page)
   \<and> (\<exists>b'. backToTop (elapse 100 (window_scroll 301 ready_page)) = Some b'
          \<and> classList_contains ''visible'' b')
   \<and> (\<exists>b'. backToTop (elapse 100 (window_scroll 300 ready_page)) = Some b'
          \<and> \<not> classList_contains ''visible'' b')
   \<and> (\<exists>b'. backToTop (elapse 100 (handleBackToTop (ready_page\<lparr>scrollY := 301\<rparr>))) = Some b'
          \<and> classList_contains ''visible'' b')"
proof -
  have d: "(100::nat) \<le> 100"
    by simp
  note h = ready_page_facts(2)
  show ?thesis
    using h d ready_page_facts(3,5) backToTop_visible_after_debounce [OF h d, of 301]
      backToTop_visible_after_debounce [OF h d, of 300]
    by auto
qed

section \<open>Properties of the category filter\<close>

lemma fold_upt_Suc: "fold f [0..<Suc n] s = f n (fold f [0..<n] s)"
  by simp

text \<open>What one pass of the loop of \<^verbatim>\<open>filterBikes\<close> makes of a card.\<close>

definition restyle :: "string option \<Rightarrow> card \<Rightarrow> card" where
  "restyle c k = (if shouldShow c k then showCard k else fadeCard k)"

lemma filterCard_bikeCards:
  assumes "bikeCards s = Some cards" and "i < length cards"
  shows "bikeCards (filterCard c i s) = Some (cards[i := restyle c (cards ! i)])"
  using assms by (simp add: filterCard_def setTimeout_def Let_def restyle_def)

lemma filterCard_timers:
  assumes "bikeCards s = Some cards" and "i < length cards"
  shows "timers (filterCard c i s) =
           timers s @ (if shouldShow c (cards ! i) then []
                       else [\<lparr>timer_id = next_timer_id s, due = clock s + 300, task = HideCard i\<rparr>])"
  using assms by (simp add: filterCard_def setTimeout_def Let_def)

lemma filterCard_frame:
  "clock (filterCard c i s) = clock s" "filterBtns (filterCard c i s) = filterBtns s"
  by (simp_all add: filterCard_def setTimeout_def Let_def split: option.splits)

lemma filterBikes_loop:
  assumes "bikeCards s = Some cards" and "n \<le> length cards"
  shows "bikeCards (fold (filterCard c) [0..<n] s) =
           Some (map (restyle c) (take n cards) @ drop n cards)
       \<and> clock (fold (filterCard c) [0..<n] s) = clock s
       \<and> filterBtns (fold (filterCard c) [0..<n] s) = filterBtns s
       \<and> (\<exists>new. timers (fold (filterCard c) [0..<n] s) = timers s @ new
             \<and> (\<forall>tm \<in> set new. due tm = clock s + 300)
             \<and> task ` set new = HideCard ` {j. j < n \<and> \<not> shouldShow c (cards ! j)})"
  using assms(2)
proof (induction n)
  case 0
  then show ?case using assms(1) by simp
next
  case (Suc n)
  let ?s = "fold (filterCard c) [0..<n] s"
  let ?cards = "map (restyle c) (take n cards) @ drop n cards"
  from Suc have n: "n < length cards" by simp
  with Suc.IH obtain new where
    b: "bikeCards ?s = Some ?cards" and ck: "clock ?s = clock s" and fb: "filterBtns ?s = filterBtns s"
    and t: "timers ?s = timers s @ new" and d: "\<forall>tm \<in> set new. due tm = clock s + 300"
    and k: "task ` set new = HideCard ` {j. j < n \<and> \<not> shouldShow c (cards ! j)}"
    by auto
  have len: "n < length ?cards" using n by simp
  have nth: "?cards ! n = cards ! n" using n by (simp add: nth_append)
  have upd: "?cards[n := restyle c (cards ! n)] = map (restyle c) (take (Suc n) cards) @ drop (Suc n) cards"
    using n by (simp add: take_Suc_conv_app_nth list_update_append upd_conv_take_nth_drop Cons_nth_drop_Suc [symmetric])
  have B: "bikeCards (filterCard c n ?s) = Some (map (restyle c) (take (Suc n) cards) @ drop (Suc n) cards)"
    using filterCard_bikeCards [OF b len, of c] nth upd by simp
  have T: "timers (filterCard c n ?s) =
      timers s @ (new @ (if shouldShow c (cards ! n) then []
          else [\<lparr>timer_id = next_timer_id ?s, due = clock s + 300, task = HideCard n\<rparr>]))"
    using filterCard_timers [OF b len, of c] nth t ck by simp
  have S: "{j. j < Suc n \<and> \<not> shouldShow c (cards ! j)} =
      {j. j < n \<and> \<not> shouldShow c (cards ! j)} \<union> (if shouldShow c (cards ! n) then {} else {n})"
    by (auto simp: less_Suc_eq)
  let ?new = "new @ (if shouldShow c (cards ! n) then []
          else [\<lparr>timer_id = next_timer_id ?s, due = clock s + 300, task = HideCard n\<rparr>])"
  have "timers (filterCard c n ?s) = timers s @ ?new" using T by simp
  moreover have "\<forall>tm \<in> set ?new. due tm = clock s + 300" using d by simp
  moreover have "task ` set ?new = HideCard ` {j. j < Suc n \<and> \<not> shouldShow c (cards ! j)}"
    unfolding S using k by (simp add: image_Un)
  ultimately have "\<exists>new. timers (filterCard c n ?s) = timers s @ new
             \<and> (\<forall>tm \<in> set new. due tm = clock s + 300)
             \<and> task ` set new = HideCard ` {j. j < Suc n \<and> \<not> shouldShow c (cards ! j)}"
    by blast
  then show ?case
    using B ck fb by (simp add: filterCard_frame)
qed


lemma filterBikes_effect:
  assumes "bikeCards s = Some cards"
  shows "bikeCards (filterBikes c s) = Some (map (restyle c) cards)
       \<and> clock (filterBikes c s) = clock s
       \<and> filterBtns (filterBikes c s) = filterBtns s
       \<and> (\<exists>new. timers (filterBikes c s) = timers s @ new
             \<and> (\<forall>tm \<in> set new. due tm = clock s + 300)
             \<and> task ` set new = HideCard ` {j. j < length cards \<and> \<not> shouldShow c (cards ! j)})"
  using filterBikes_loop [OF assms order_refl, of c] assms by (simp add: filterBikes_def)

text \<open>The filter buttons after a click on the button at position \<open>i\<close>.\<close>

definition activate :: "nat \<Rightarrow> filter_btn list \<Rightarrow> filter_btn list" where
  "activate i btns =
     (map (\<lambda>b. b\<lparr>btn_classList := classList_remove ''active'' (btn_classList b)\<rparr>) btns)
       [i := (btns ! i)\<lparr>btn_classList := classList_add ''active'' (classList_remove ''active'' (btn_classList (btns ! i)))\<rparr>]"

lemma filterBtn_click_eq:
  assumes "filterBtns s = Some btns" and "i < length btns"
  shows "filterBtn_click i s = filterBikes (btn_category (btns ! i)) (s\<lparr>filterBtns := Some (activate i btns)\<rparr>)"
  using assms by (simp add: filterBtn_click_def activate_def Let_def)

lemma bikeCards_fire:
  "bikeCards (fire u s) =
     (case task u of
        HideCard j \<Rightarrow> map_option (\<lambda>cs. if j < length cs then cs[j := (cs ! j)\<lparr>card_display := ''none''\<rparr>] else cs) (bikeCards s)
      | _ \<Rightarrow> bikeCards s)"
  by (cases "task u") (simp_all add: fire_def callback_defs split: option.splits)

text \<open>The card at position \<open>j\<close> is \<open>v\<close> and no pending timer is going to hide it.\<close>

definition card_kept :: "nat \<Rightarrow> nat \<Rightarrow> card \<Rightarrow> state \<Rightarrow> bool" where
  "card_kept n j v s \<longleftrightarrow>
     (\<exists>cs. bikeCards s = Some cs \<and> length cs = n \<and> cs ! j = v) \<and>
     (\<forall>tm \<in> set (timers s). task tm \<noteq> HideCard j)"

lemma card_kept_fire:
  assumes "card_kept n j v s" and "u \<in> set (timers s)"
  shows "card_kept n j v (fire u s)"
proof -
  obtain cs where cs: "bikeCards s = Some cs" "length cs = n" "cs ! j = v"
    and no: "\<forall>tm \<in> set (timers s). task tm \<noteq> HideCard j"
    using assms(1) unfolding card_kept_def by blast
  have u: "task u \<noteq> HideCard j"
    using no assms(2) by blast
  have "\<exists>cs'. bikeCards (fire u s) = Some cs' \<and> length cs' = n \<and> cs' ! j = v"
    using cs u by (cases "task u") (auto simp: bikeCards_fire)
  moreover have "\<forall>tm \<in> set (timers (fire u s)). task tm \<noteq> HideCard j"
    using no timers_fire_task [of _ u s] by fastforce
  ultimately show ?thesis
    unfolding card_kept_def by blast
qed

text \<open>
  The card at position \<open>j\<close> is \<open>v\<close> but for its display (it is fading), and it is \<open>v\<close> (it
  is hidden).
\<close>

definition card_fading :: "nat \<Rightarrow> nat \<Rightarrow> card \<Rightarrow> state \<Rightarrow> bool" where
  "card_fading n j v s \<longleftrightarrow>
     (\<exists>cs. bikeCards s = Some cs \<and> length cs = n \<and> (cs ! j)\<lparr>card_display := ''none''\<rparr> = v)"

definition card_hidden :: "nat \<Rightarrow> nat \<Rightarrow> card \<Rightarrow> state \<Rightarrow> bool" where
  "card_hidden n j v s \<longleftrightarrow> (\<exists>cs. bikeCards s = Some cs \<and> length cs = n \<and> cs ! j = v)"

lemma card_fading_fire:
  assumes "card_fading n j v s"
  shows "card_fading n j v (fire u s)"
proof -
  obtain cs where cs: "bikeCards s = Some cs" "length cs = n" "(cs ! j)\<lparr>card_display := ''none''\<rparr> = v"
    using assms unfolding card_fading_def by blast
  show ?thesis
    unfolding card_fading_def using cs
    by (cases "task u") (auto simp: bikeCards_fire nth_list_update)
qed

lemma card_hidden_est:
  assumes "card_fading n j v s" and "task u = HideCard j" and "j < n"
  shows "card_hidden n j v (fire u s)"
proof -
  obtain cs where cs: "bikeCards s = Some cs" "length cs = n" "(cs ! j)\<lparr>card_display := ''none''\<rparr> = v"
    using assms(1) unfolding card_fading_def by blast
  show ?thesis
    unfolding card_hidden_def using cs assms(2,3)
    by (simp add: bikeCards_fire)
qed

lemma card_hidden_fire:
  assumes "card_fading n j v s" and "card_hidden n j v s"
  shows "card_hidden n j v (fire u s)"
proof -
  obtain cs where cs: "bikeCards s = Some cs" "length cs = n" "cs ! j = v"
    using assms(2) unfolding card_hidden_def by blast
  moreover have "v\<lparr>card_display := ''none''\<rparr> = v"
    using assms(1) cs unfolding card_fading_def by auto
  ultimately show ?thesis
    unfolding card_hidden_def
    by (cases "task u") (auto simp: bikeCards_fire nth_list_update)
qed

lemma advance_to_card_kept:
  assumes "card_kept n j v s"
  shows "card_kept n j v (advance_to t s)"
  using assms
proof (rule advance_to_invariant)
  show "card_kept n j v (fire u s')" if "card_kept n j v s'" "u \<in> set (timers s')" for s' u
    using that by (rule card_kept_fire)
  show "card_kept n j v (s'\<lparr>clock := c\<rparr>)" if "card_kept n j v s'" for s' c
    using that by (simp add: card_kept_def)
qed

lemma advance_to_card_hidden:
  assumes "tm \<in> set (timers s)" and "due tm \<le> t" and "task tm = HideCard j" and "j < n"
    and "card_fading n j v s"
  shows "card_hidden n j v (advance_to t s)"
  using assms(1,2,5)
proof (rule advance_to_runs [where I = "card_fading n j v"])
  show "card_fading n j v (fire u s')" if "card_fading n j v s'" for s' u
    using that by (rule card_fading_fire)
  show "card_fading n j v (s'\<lparr>clock := c\<rparr>)" if "card_fading n j v s'" for s' c
    using that by (simp add: card_fading_def)
  show "card_hidden n j v (fire tm s')" if "card_fading n j v s'" for s'
    using that assms(3,4) by (rule card_hidden_est)
  show "card_hidden n j v (fire u s')" if "card_fading n j v s'" "card_hidden n j v s'" for s' u
    using that by (rule card_hidden_fire)
  show "card_hidden n j v (s'\<lparr>clock := c\<rparr>)" if "card_hidden n j v s'" for s' c
    using that by (simp add: card_hidden_def)
qed

text \<open>What a card is once the delay of 300 ms is over.\<close>

definition settled :: "string option \<Rightarrow> card \<Rightarrow> card" where
  "settled c k = (if shouldShow c k then showCard k else (fadeCard k)\<lparr>card_display := ''none''\<rparr>)"

lemma filterBikes_settles:
  assumes cards: "bikeCards s = Some cards"
    and stale: "\<forall>tm \<in> set (timers s). \<forall>j < length cards. task tm = HideCard j \<longrightarrow> \<not> shouldShow c (cards ! j)"
    and d: "300 \<le> d"
    and j: "j < length cards"
  shows "\<exists>cs. bikeCards (elapse d (filterBikes c s)) = Some cs \<and> length cs = length cards
           \<and> cs ! j = settled c (cards ! j)"
proof -
  let ?s1 = "filterBikes c s"
  obtain new where b: "bikeCards ?s1 = Some (map (restyle c) cards)" and ck: "clock ?s1 = clock s"
    and t: "timers ?s1 = timers s @ new" and due: "\<forall>tm \<in> set new. due tm = clock s + 300"
    and k: "task ` set new = HideCard ` {j. j < length cards \<and> \<not> shouldShow c (cards ! j)}"
    using filterBikes_effect [OF cards, of c] by blast
  show ?thesis
  proof (cases "shouldShow c (cards ! j)")
    case True
    have "\<forall>tm \<in> set (timers ?s1). task tm \<noteq> HideCard j"
    proof
      fix tm assume "tm \<in> set (timers ?s1)"
      then consider "tm \<in> set (timers s)" | "tm \<in> set new"
        using t by auto
      then show "task tm \<noteq> HideCard j"
      proof cases
        case 1
        then show ?thesis using stale j True by blast
      next
        case 2
        then have "task tm \<in> HideCard ` {j. j < length cards \<and> \<not> shouldShow c (cards ! j)}"
          using k by blast
        then show ?thesis using True by auto
      qed
    qed
    then have "card_kept (length cards) j (showCard (cards ! j)) ?s1"
      using b j True by (simp add: card_kept_def restyle_def)
    then have "card_kept (length cards) j (showCard (cards ! j)) (advance_to (clock ?s1 + d) ?s1)"
      by (rule advance_to_card_kept)
    then show ?thesis
      using True by (auto simp: card_kept_def elapse_def settled_def)
  next
    case False
    then have "HideCard j \<in> task ` set new"
      using k j by blast
    then obtain tm where tm: "tm \<in> set new" "task tm = HideCard j"
      by auto
    then have "tm \<in> set (timers ?s1)" "due tm \<le> clock ?s1 + d"
      using t due d ck by auto
    moreover have "card_fading (length cards) j ((fadeCard (cards ! j))\<lparr>card_display := ''none''\<rparr>) ?s1"
      using b j False by (simp add: card_fading_def restyle_def)
    ultimately have "card_hidden (length cards) j ((fadeCard (cards ! j))\<lparr>card_display := ''none''\<rparr>)
        (advance_to (clock ?s1 + d) ?s1)"
      using tm(2) j by (intro advance_to_card_hidden [where tm = tm]) auto
    then show ?thesis
      using False by (auto simp: card_hidden_def elapse_def settled_def)
  qed
qed


lemma advance_to_cards_length:
  assumes "bikeCards s = Some cards"
  shows "\<exists>cs. bikeCards (advance_to t s) = Some cs \<and> length cs = length cards"
proof (rule advance_to_invariant [where P = "\<lambda>s. \<exists>cs. bikeCards s = Some cs \<and> length cs = length cards"])
  show "\<exists>cs. bikeCards s = Some cs \<and> length cs = length cards"
    using assms by simp
  show "\<exists>cs. bikeCards (fire u s') = Some cs \<and> length cs = length cards"
    if pre: "\<exists>cs. bikeCards s' = Some cs \<and> length cs = length cards" for s' u
  proof -
    obtain cs where "bikeCards s' = Some cs" "length cs = length cards"
      using pre by blast
    then show ?thesis
      by (cases "task u") (simp_all add: bikeCards_fire)
  qed
  show "\<exists>cs. bikeCards (s'\<lparr>clock := c\<rparr>) = Some cs \<and> length cs = length cards"
    if "\<exists>cs. bikeCards s' = Some cs \<and> length cs = length cards" for s' c
    using that by simp
qed

lemma refiltering_page_facts:
  "filterBtns refiltering_page = Some
        [\<lparr>btn_classList = [''filter-btn''], btn_category = Some ''all''\<rparr>,
         \<lparr>btn_classList = [''filter-btn'', ''active''], btn_category = Some ''trail''\<rparr>,
         \<lparr>btn_classList = [''filter-btn''], btn_category = Some ''road''\<rparr>]"
  "bikeCards refiltering_page = Some
        [\<lparr>card_category = Some ''trail'', card_display = ''block'', card_opacity = ''1'',
           card_transform = ''translateY(0)''\<rparr>,
         \<lparr>card_category = Some ''road'', card_display = [], card_opacity = ''0'',
           card_transform = ''translateY(20px)''\<rparr>]"
  "timers refiltering_page = [\<lparr>timer_id = 1, due = 300, task = HideCard 1\<rparr>]"
  by (code_simp+)

text \<open>
  Claim C1, as the code has it. For every click on a filter button carrying category \<open>c\<close>,
  made while no timer armed by an earlier click is still pending for a card that \<open>c\<close> shows:
  once the delay of 300 ms has gone by, exactly the bike cards whose \<^verbatim>\<open>data-category\<close> equals
  \<open>c\<close> are visible (their display is not \<^verbatim>\<open>none\<close>) and every other card is hidden; when \<open>c\<close>
  is the wildcard \<^verbatim>\<open>all\<close>, every card is visible.
\<close>

theorem filterBtn_click_settles:
  assumes btns: "filterBtns s = Some btns" and i: "i < length btns"
    and cards: "bikeCards s = Some cards"
    and stale: "\<forall>tm \<in> set (timers s). \<forall>j < length cards.
        task tm = HideCard j \<longrightarrow> \<not> shouldShow (btn_category (btns ! i)) (cards ! j)"
    and d: "300 \<le> d"
  shows "\<exists>cards'. bikeCards (elapse d (filterBtn_click i s)) = Some cards'
      \<and> length cards' = length cards
      \<and> (\<forall>j < length cards.
            (card_display (cards' ! j) \<noteq> ''none'' \<longleftrightarrow>
               btn_category (btns ! i) = Some ''all'' \<or> card_category (cards ! j) = btn_category (btns ! i))
            \<and> card_category (cards' ! j) = card_category (cards ! j))"
proof -
  let ?c = "btn_category (btns ! i)"
  let ?s2 = "s\<lparr>filterBtns := Some (activate i btns)\<rparr>"
  have click: "filterBtn_click i s = filterBikes ?c ?s2"
    using btns i by (rule filterBtn_click_eq)
  have cards2: "bikeCards ?s2 = Some cards"
    using cards by simp
  have stale2: "\<forall>tm \<in> set (timers ?s2). \<forall>j < length cards. task tm = HideCard j \<longrightarrow> \<not> shouldShow ?c (cards ! j)"
    using stale by simp
  obtain cards1 where cards1: "bikeCards (filterBikes ?c ?s2) = Some cards1"
    using filterBikes_effect [OF cards2, of ?c] by blast
  obtain cards' where fin: "bikeCards (elapse d (filterBtn_click i s)) = Some cards'"
    using advance_to_cards_length [OF cards1] unfolding click elapse_def by blast
  have each: "length cards' = length cards \<and> cards' ! j = settled ?c (cards ! j)" if "j < length cards" for j
    using filterBikes_settles [OF cards2 stale2 d that] fin unfolding click by auto
  have len: "length cards' = length cards"
  proof (cases cards)
    case Nil
    then have "bikeCards (filterBikes ?c ?s2) = Some []"
      using filterBikes_effect [OF cards2, of ?c] by simp
    then show ?thesis
      using advance_to_cards_length [of "filterBikes ?c ?s2" "[]" "clock (filterBikes ?c ?s2) + d"] fin Nil
      unfolding click elapse_def by simp
  next
    case (Cons a list)
    then show ?thesis using each [of 0] by simp
  qed
  have "(card_display (cards' ! j) \<noteq> ''none'' \<longleftrightarrow>
               ?c = Some ''all'' \<or> card_category (cards ! j) = ?c)
            \<and> card_category (cards' ! j) = card_category (cards ! j)" if "j < length cards" for j
    using each [OF that] by (simp add: settled_def shouldShow_def showCard_def fadeCard_def)
  then show ?thesis
    using fin len by blast
qed

theorem filterBtn_click_settles_witness:
  "timers refiltering_page = [\<lparr>timer_id = 1, due = 300, task = HideCard 1\<rparr>]
   \<and> \<not> shouldShow (Some ''trail'') \<lparr>card_category = Some ''road'', card_display = [], card_opacity = ''0'',
           card_transform = ''translateY(20px)''\<rparr>
   \<and> (300::nat) \<le> 300
   \<and> (\<exists>cards'. bikeCards (elapse 300 (filterBtn_click 1 refiltering_page)) = Some cards'
          \<and> length cards' = 2
          \<and> card_display (cards' ! 0) \<noteq> ''none''
          \<and> card_display (cards' ! 1) = ''none'')"
proof -
  let ?btns = "[\<lparr>btn_classList = [''filter-btn''], btn_category = Some ''all''\<rparr>,
         \<lparr>btn_classList = [''filter-btn'', ''active''], btn_category = Some ''trail''\<rparr>,
         \<lparr>btn_classList = [''filter-btn''], btn_category = Some ''road''\<rparr>]"
  let ?cards = "[\<lparr>card_category = Some ''trail'', card_display = ''block'', card_opacity = ''1'',
           card_transform = ''translateY(0)''\<rparr>,
         \<lparr>card_category = Some ''road'', card_display = [], card_opacity = ''0'',
           card_transform = ''translateY(20px)''\<rparr>]"
  note h1 = refiltering_page_facts(1) and h3 = refiltering_page_facts(2) and h4 = refiltering_page_facts(3)
  have h2: "(1::nat) < length ?btns" and h5: "(300::nat) \<le> 300"
    by simp_all
  have road: "\<not> shouldShow (Some ''trail'') (?cards ! 1)"
    by (simp add: shouldShow_def)
  have h6: "\<forall>tm \<in> set (timers refiltering_page). \<forall>j < length ?cards.
        task tm = HideCard j \<longrightarrow> \<not> shouldShow (btn_category (?btns ! 1)) (?cards ! j)"
    using road by (simp add: h4)
  from filterBtn_click_settles [OF h1 h2 h3 h6 h5]
  obtain cards' where c: "bikeCards (elapse 300 (filterBtn_click 1 refiltering_page)) = Some cards'"
    "length cards' = 2"
    and each: "\<forall>j < 2. (card_display (cards' ! j) \<noteq> ''none'' \<longleftrightarrow>
               Some ''trail'' = Some ''all'' \<or> card_category (?cards ! j) = Some ''trail'')
            \<and> card_category (cards' ! j) = card_category (?cards ! j)"
    by auto
  have "card_display (cards' ! 0) \<noteq> ''none''" "card_display (cards' ! 1) = ''none''"
    using each [rule_format, of 0] each [rule_format, of 1] by simp_all
  then show ?thesis
    using h4 road c by auto
qed

text \<open>
  The claim C1 as stated, for every click, fails when the clicks follow each other within
  300 ms: a click on \<^verbatim>\<open>trail\<close> arms a timer that hides the road card, a click on \<^verbatim>\<open>all\<close>
  100 ms later shows the card again, and the timer of the first click, which nothing
  cancels, hides it 200 ms after that. The road card is hidden 300 ms after the click on
  \<^verbatim>\<open>all\<close>.
\<close>

theorem filterBtn_click_stale_timer_counterexample:
  "bikeCards (elapse 300 (filterBtn_click 0 (elapse 100 (filterBtn_click 1 sample_page)))) =
     Some [\<lparr>card_category = Some ''trail'', card_display = ''block'', card_opacity = ''1'',
             card_transform = ''translateY(0)''\<rparr>,
           \<lparr>card_category = Some ''road'', card_display = ''none'', card_opacity = ''1'',
             card_transform = ''translateY(0)''\<rparr>]"
  by code_simp

lemma filterBikes_filterBtns: "filterBtns (filterBikes c s) = filterBtns s"
proof (cases "bikeCards s")
  case None
  then show ?thesis by (simp add: filterBikes_def)
next
  case (Some cards)
  then show ?thesis using filterBikes_effect [OF Some, of c] by simp
qed

lemma filterBtn_click_filterBtns:
  assumes "filterBtns s = Some btns" and "i < length btns"
  shows "filterBtns (filterBtn_click i s) = Some (activate i btns)"
  using assms by (simp add: filterBtn_click_eq filterBikes_filterBtns)

lemma length_activate: "length (activate i btns) = length btns"
  by (simp add: activate_def)

lemma activate_active:
  assumes "i < length btns" and "j < length btns"
  shows "classList_contains ''active'' (btn_classList (activate i btns ! j)) \<longleftrightarrow> j = i"
  using assms
  by (simp add: activate_def nth_list_update classList_contains_add classList_contains_remove)

lemma fold_filterBtn_click:
  assumes "filterBtns s = Some btns" and "\<forall>k \<in> set ks. k < length btns"
  shows "\<exists>bs. filterBtns (fold filterBtn_click ks s) = Some bs \<and> length bs = length btns"
  using assms
proof (induction ks arbitrary: s btns)
  case Nil
  then show ?case by simp
next
  case (Cons k ks)
  then have "filterBtns (filterBtn_click k s) = Some (activate k btns)"
    by (simp add: filterBtn_click_filterBtns)
  moreover have "\<forall>k' \<in> set ks. k' < length (activate k btns)"
    using Cons.prems(2) by (simp add: length_activate)
  ultimately have "\<exists>bs. filterBtns (fold filterBtn_click ks (filterBtn_click k s)) = Some bs
      \<and> length bs = length (activate k btns)"
    by (rule Cons.IH)
  then show ?case by (simp add: length_activate)
qed

text \<open>
  Claim C2. Immediately after the click listener of a filter button has run, exactly one
  filter button carries the class \<^verbatim>\<open>active\<close>, namely the clicked one. This holds after every
  sequence \<open>ks\<close> of earlier filter clicks and from every starting state, whatever buttons
  were active in it.
\<close>

theorem filterBtn_click_exclusive:
  assumes "filterBtns s = Some btns" and "\<forall>k \<in> set ks. k < length btns" and "i < length btns"
  shows "\<exists>btns'. filterBtns (filterBtn_click i (fold filterBtn_click ks s)) = Some btns'
      \<and> length btns' = length btns
      \<and> (\<forall>j < length btns. classList_contains ''active'' (btn_classList (btns' ! j)) \<longleftrightarrow> j = i)"
proof -
  obtain bs where bs: "filterBtns (fold filterBtn_click ks s) = Some bs" "length bs = length btns"
    using fold_filterBtn_click [OF assms(1,2)] by blast
  then have "filterBtns (filterBtn_click i (fold filterBtn_click ks s)) = Some (activate i bs)"
    using assms(3) by (simp add: filterBtn_click_filterBtns)
  then show ?thesis
    using bs(2) assms(3) by (simp add: length_activate activate_active)
qed

theorem filterBtn_click_exclusive_witness:
  "filterBtns sample_page = Some
        [\<lparr>btn_classList = [''filter-btn'', ''active''], btn_category = Some ''all''\<rparr>,
         \<lparr>btn_classList = [''filter-btn''], btn_category = Some ''trail''\<rparr>,
         \<lparr>btn_classList = [''filter-btn''], btn_category = Some ''road''\<rparr>]
   \<and> (\<exists>btns'. filterBtns (filterBtn_click 2 (fold filterBtn_click [1, 0, 1] sample_page)) = Some btns'
          \<and> length btns' = 3
          \<and> \<not> classList_contains ''active'' (btn_classList (btns' ! 0))
          \<and> \<not> classList_contains ''active'' (btn_classList (btns' ! 1))
          \<and> classList_contains ''active'' (btn_classList (btns' ! 2)))"
proof -
  let ?btns = "[\<lparr>btn_classList = [''filter-btn'', ''active''], btn_category = Some ''all''\<rparr>,
         \<lparr>btn_classList = [''filter-btn''], btn_category = Some ''trail''\<rparr>,
         \<lparr>btn_classList = [''filter-btn''], btn_category = Some ''road''\<rparr>]"
  have h1: "filterBtns sample_page = Some ?btns"
    by (simp add: sample_page_def)
  have h2: "\<forall>k \<in> set [1, 0, 1]. k < length ?btns" and h3: "2 < length ?btns"
    by simp_all
  from filterBtn_click_exclusive [OF h1 h2 h3]
  obtain btns' where b: "filterBtns (filterBtn_click 2 (fold filterBtn_click [1, 0, 1] sample_page)) = Some btns'"
    "length btns' = 3"
    and each: "\<forall>j < 3. classList_contains ''active'' (btn_classList (btns' ! j)) \<longleftrightarrow> j = 2"
    by auto
  have "\<not> classList_contains ''active'' (btn_classList (btns' ! 0))"
    "\<not> classList_contains ''active'' (btn_classList (btns' ! 1))"
    "classList_contains ''active'' (btn_classList (btns' ! 2))"
    using each [rule_format, of 0] each [rule_format, of 1] each [rule_format, of 2] by simp_all
  then show ?thesis
    using h1 b by auto
qed

section \<open>Properties of lazy loading\<close>

text \<open>
  The values assigned so far to the \<^verbatim>\<open>src\<close> of the image at position \<open>i\<close>, in order, and
  whether the observer watches that image.
\<close>

definition assignments_to :: "nat \<Rightarrow> state \<Rightarrow> string list" where
  "assignments_to i s = map snd (filter (\<lambda>p. fst p = i) (src_assignments s))"

definition watched :: "nat \<Rightarrow> state \<Rightarrow> bool" where
  "watched i s = (case imageObserver s of None \<Rightarrow> False | Some ob \<Rightarrow> i \<in> set (observed ob))"

lemma observe_entry_skip:
  assumes "\<not> (isIntersecting en \<and> target en < length (images s) \<and> truthy (img_data_src (images s ! target en)))"
  shows "observe_entry en s = s"
  using assms by (auto simp: observe_entry_def Let_def)

lemma observe_entry_load:
  assumes "isIntersecting en" and "target en < length (images s)"
    and "img_data_src (images s ! target en) = Some v" and "v \<noteq> []"
  shows "observe_entry en s =
           unobserve (target en)
             (s\<lparr>images := (images s)[target en := (images s ! target en)\<lparr>img_src := Some v, img_data_src := None\<rparr>],
                src_assignments := src_assignments s @ [(target en, v)]\<rparr>)"
  using assms by (simp add: observe_entry_def Let_def truthy_def)

lemma truthy_Some: "truthy d \<longleftrightarrow> (\<exists>v. d = Some v \<and> v \<noteq> [])"
  by (cases d) (simp_all add: truthy_def)

lemma length_images_observe_entry: "length (images (observe_entry en s)) = length (images s)"
  by (simp add: observe_entry_def Let_def unobserve_def)

lemma observe_entry_other:
  assumes "target en \<noteq> i \<or> \<not> isIntersecting en"
  shows "images (observe_entry en s) ! i = images s ! i"
    and "assignments_to i (observe_entry en s) = assignments_to i s"
    and "watched i (observe_entry en s) = watched i s"
  using assms
  by (auto simp: observe_entry_def Let_def unobserve_def assignments_to_def watched_def
      split: option.splits)

lemma observe_entry_untouched:
  assumes "i < length (images s)" and "\<not> truthy (img_data_src (images s ! i))"
  shows "images (observe_entry en s) ! i = images s ! i"
    and "assignments_to i (observe_entry en s) = assignments_to i s"
    and "watched i (observe_entry en s) = watched i s"
proof -
  have "observe_entry en s = s \<or> target en \<noteq> i \<or> \<not> isIntersecting en"
    using assms observe_entry_skip [of en s] by blast
  then show "images (observe_entry en s) ! i = images s ! i"
    and "assignments_to i (observe_entry en s) = assignments_to i s"
    and "watched i (observe_entry en s) = watched i s"
    using observe_entry_other [of en i s] by auto
qed

lemma callback_untouched:
  assumes "i < length (images s)" and "\<not> truthy (img_data_src (images s ! i))"
  shows "images (imageObserver_callback es s) ! i = images s ! i
       \<and> assignments_to i (imageObserver_callback es s) = assignments_to i s
       \<and> watched i (imageObserver_callback es s) = watched i s"
  using assms
proof (induction es arbitrary: s)
  case Nil
  then show ?case by (simp add: imageObserver_callback_def)
next
  case (Cons en es)
  let ?s1 = "observe_entry en s"
  have 1: "images ?s1 ! i = images s ! i" "assignments_to i ?s1 = assignments_to i s"
    "watched i ?s1 = watched i s"
    using Cons.prems by (rule observe_entry_untouched)+
  have "i < length (images ?s1)" "\<not> truthy (img_data_src (images ?s1 ! i))"
    using Cons.prems 1 by (simp_all add: length_images_observe_entry)
  then have "images (imageObserver_callback es ?s1) ! i = images ?s1 ! i
       \<and> assignments_to i (imageObserver_callback es ?s1) = assignments_to i ?s1
       \<and> watched i (imageObserver_callback es ?s1) = watched i ?s1"
    by (rule Cons.IH)
  then show ?case
    using 1 by (simp add: imageObserver_callback_def)
qed

text \<open>
  Claim C10. In the observer's callback, an image that has no \<^verbatim>\<open>data-src\<close> attribute is left
  as it is whatever the entries are, also when it intersects: its attributes are unchanged,
  nothing is assigned to its source, and it is watched afterwards exactly if it was watched
  before.
\<close>

theorem lazy_image_without_data_src_untouched:
  assumes "i < length (images s)" and "img_data_src (images s ! i) = None"
  shows "images (imageObserver_callback entries s) ! i = images s ! i
       \<and> watched i (imageObserver_callback entries s) = watched i s
       \<and> assignments_to i (imageObserver_callback entries s) = assignments_to i s"
  using callback_untouched [OF assms(1), of entries] assms(2) by (simp add: truthy_def)

text \<open>The sample page with an observer that watches all three images.\<close>

definition watching_all_page :: state where
  "watching_all_page = sample_page\<lparr>imageObserver := Some \<lparr>rootMargin = ''50px'', observed = [0, 1, 2]\<rparr>\<rparr>"

theorem lazy_image_without_data_src_untouched_witness:
  "(2::nat) < length (images watching_all_page)
   \<and> img_data_src (images watching_all_page ! 2) = None
   \<and> images (imageObserver_callback [\<lparr>target = 2, isIntersecting = True\<rparr>] watching_all_page) ! 2
        = \<lparr>img_src = Some ''logo.png'', img_data_src = None\<rparr>
   \<and> watched 2 (imageObserver_callback [\<lparr>target = 2, isIntersecting = True\<rparr>] watching_all_page)
   \<and> assignments_to 2 (imageObserver_callback [\<lparr>target = 2, isIntersecting = True\<rparr>] watching_all_page) = []"
proof -
  have h1: "(2::nat) < length (images watching_all_page)"
    and h2: "img_data_src (images watching_all_page ! 2) = None"
    and i: "images watching_all_page ! 2 = \<lparr>img_src = Some ''logo.png'', img_data_src = None\<rparr>"
    and w: "watched 2 watching_all_page"
    and a: "assignments_to 2 watching_all_page = []"
    by (simp_all add: watching_all_page_def sample_page_def watched_def assignments_to_def)
  show ?thesis
    using h1 h2 i w a
      lazy_image_without_data_src_untouched [OF h1 h2, of "[\<lparr>target = 2, isIntersecting = True\<rparr>]"]
    by simp
qed

lemma initLazyLoading_observes:
  assumes "hasIntersectionObserver s" and "i < length (images s)" and "img_data_src (images s ! i) \<noteq> None"
  shows "\<exists>ob. imageObserver (initLazyLoading s) = Some ob \<and> rootMargin ob = ''50px'' \<and> i \<in> set (observed ob)"
  using assms by (simp add: initLazyLoading_def)

lemma observe_entry_loads:
  assumes "i < length (images s)" and "img_data_src (images s ! i) = Some v" and "v \<noteq> []"
    and "target en = i" and "isIntersecting en"
  shows "images (observe_entry en s) ! i = (images s ! i)\<lparr>img_src := Some v, img_data_src := None\<rparr>"
    and "assignments_to i (observe_entry en s) = assignments_to i s @ [v]"
    and "\<not> watched i (observe_entry en s)"
  using assms
  by (simp_all add: observe_entry_load unobserve_def assignments_to_def watched_def split: option.splits)

lemma callback_loads:
  assumes "i < length (images s)" and "img_data_src (images s ! i) = Some v" and "v \<noteq> []"
    and "\<exists>en \<in> set es. target en = i \<and> isIntersecting en"
  shows "images (imageObserver_callback es s) ! i = (images s ! i)\<lparr>img_src := Some v, img_data_src := None\<rparr>
       \<and> assignments_to i (imageObserver_callback es s) = assignments_to i s @ [v]
       \<and> \<not> watched i (imageObserver_callback es s)"
  using assms
proof (induction es arbitrary: s)
  case Nil
  then show ?case by simp
next
  case (Cons en es)
  let ?s1 = "observe_entry en s"
  have len: "i < length (images ?s1)"
    using Cons.prems(1) by (simp add: length_images_observe_entry)
  have cb: "imageObserver_callback (en # es) s = imageObserver_callback es ?s1"
    by (simp add: imageObserver_callback_def)
  show ?case
  proof (cases "target en = i \<and> isIntersecting en")
    case True
    then have 1: "images ?s1 ! i = (images s ! i)\<lparr>img_src := Some v, img_data_src := None\<rparr>"
      "assignments_to i ?s1 = assignments_to i s @ [v]" "\<not> watched i ?s1"
      using Cons.prems(1-3) by (simp_all add: observe_entry_loads)
    then have "\<not> truthy (img_data_src (images ?s1 ! i))"
      by (simp add: truthy_def)
    with len show ?thesis
      using callback_untouched [of i ?s1 es] 1 cb by simp
  next
    case False
    then have 1: "images ?s1 ! i = images s ! i" "assignments_to i ?s1 = assignments_to i s"
      using observe_entry_other [of en i s] by auto
    moreover have "\<exists>en \<in> set es. target en = i \<and> isIntersecting en"
      using Cons.prems(4) False by auto
    ultimately show ?thesis
      using Cons.IH [of ?s1] len Cons.prems(2,3) cb by simp
  qed
qed

text \<open>
  Claim C5, as the code has it. For every image whose \<^verbatim>\<open>data-src\<close> is not empty:
  \<^verbatim>\<open>initLazyLoading\<close> has it watched by an observer with a root margin of 50 pixels, and
  when the callback gets an entry that says the image intersects, the callback assigns the
  deferred value to the image's source exactly once (however many entries name the image),
  removes the attribute \<^verbatim>\<open>data-src\<close> and stops observing the image; no later call of the
  callback changes the image or assigns to its source again.
\<close>

theorem lazy_image_loaded_once:
  assumes "i < length (images s)" and "img_data_src (images s ! i) = Some v" and "v \<noteq> []"
    and "en \<in> set entries" and "target en = i" and "isIntersecting en"
  shows "(hasIntersectionObserver s \<longrightarrow>
            (\<exists>ob. imageObserver (initLazyLoading s) = Some ob \<and> rootMargin ob = ''50px''
               \<and> i \<in> set (observed ob)))
       \<and> images (imageObserver_callback entries s) ! i =
           (images s ! i)\<lparr>img_src := Some v, img_data_src := None\<rparr>
       \<and> assignments_to i (imageObserver_callback entries s) = assignments_to i s @ [v]
       \<and> \<not> watched i (imageObserver_callback entries s)
       \<and> (\<forall>later.
             images (imageObserver_callback later (imageObserver_callback entries s)) ! i =
               images (imageObserver_callback entries s) ! i
           \<and> assignments_to i (imageObserver_callback later (imageObserver_callback entries s)) =
               assignments_to i (imageObserver_callback entries s)
           \<and> \<not> watched i (imageObserver_callback later (imageObserver_callback entries s)))"
proof -
  let ?s' = "imageObserver_callback entries s"
  have first: "images ?s' ! i = (images s ! i)\<lparr>img_src := Some v, img_data_src := None\<rparr>
       \<and> assignments_to i ?s' = assignments_to i s @ [v] \<and> \<not> watched i ?s'"
    using assms by (intro callback_loads) auto
  have "length (images ?s') = length (images s)"
    unfolding imageObserver_callback_def
    by (induction entries arbitrary: s) (simp_all add: length_images_observe_entry)
  then have "i < length (images ?s')" "\<not> truthy (img_data_src (images ?s' ! i))"
    using assms(1) first by (simp_all add: truthy_def)
  then have "images (imageObserver_callback later ?s') ! i = images ?s' ! i
       \<and> assignments_to i (imageObserver_callback later ?s') = assignments_to i ?s'
       \<and> watched i (imageObserver_callback later ?s') = watched i ?s'" for later
    by (rule callback_untouched)
  moreover have "\<exists>ob. imageObserver (initLazyLoading s) = Some ob \<and> rootMargin ob = ''50px''
      \<and> i \<in> set (observed ob)" if "hasIntersectionObserver s"
    using that assms(1,2) by (intro initLazyLoading_observes) auto
  ultimately show ?thesis
    using first by simp
qed

text \<open>The sample page once \<^verbatim>\<open>initLazyLoading\<close> has run.\<close>

definition lazy_page :: state where
  "lazy_page = initLazyLoading sample_page"

lemma lazy_page_images:
  "images lazy_page =
        [\<lparr>img_src = None, img_data_src = Some ''hero.jpg''\<rparr>,
         \<lparr>img_src = None, img_data_src = Some []\<rparr>,
         \<lparr>img_src = Some ''logo.png'', img_data_src = None\<rparr>]"
  "src_assignments lazy_page = []"
  "imageObserver lazy_page = Some \<lparr>rootMargin = ''50px'', observed = [0, 1]\<rparr>"
  by (simp_all add: lazy_page_def initLazyLoading_def sample_page_def upt_rec)

theorem lazy_image_loaded_once_witness:
  "(0::nat) < length (images lazy_page)
   \<and> img_data_src (images lazy_page ! 0) = Some ''hero.jpg''
   \<and> ''hero.jpg'' \<noteq> []
   \<and> \<lparr>target = 0, isIntersecting = True\<rparr> \<in> set [\<lparr>target = 1, isIntersecting = True\<rparr>,
         \<lparr>target = 0, isIntersecting = True\<rparr>, \<lparr>target = 0, isIntersecting = True\<rparr>]
   \<and> images (imageObserver_callback [\<lparr>target = 1, isIntersecting = True\<rparr>,
         \<lparr>target = 0, isIntersecting = True\<rparr>, \<lparr>target = 0, isIntersecting = True\<rparr>] lazy_page) ! 0
       = \<lparr>img_src = Some ''hero.jpg'', img_data_src = None\<rparr>
   \<and> assignments_to 0 (imageObserver_callback [\<lparr>target = 1, isIntersecting = True\<rparr>,
         \<lparr>target = 0, isIntersecting = True\<rparr>, \<lparr>target = 0, isIntersecting = True\<rparr>] lazy_page)
       = [''hero.jpg'']
   \<and> \<not> watched 0 (imageObserver_callback [\<lparr>target = 1, isIntersecting = True\<rparr>,
         \<lparr>target = 0, isIntersecting = True\<rparr>, \<lparr>target = 0, isIntersecting = True\<rparr>] lazy_page)"
proof -
  let ?es = "[\<lparr>target = 1, isIntersecting = True\<rparr>,
         \<lparr>target = 0, isIntersecting = True\<rparr>, \<lparr>target = 0, isIntersecting = True\<rparr>]"
  have h1: "(0::nat) < length (images lazy_page)"
    and h2: "img_data_src (images lazy_page ! 0) = Some ''hero.jpg''"
    and h3: "''hero.jpg'' \<noteq> []"
    and h4: "\<lparr>target = 0, isIntersecting = True\<rparr> \<in> set ?es"
    and h5: "target \<lparr>target = 0, isIntersecting = True\<rparr> = 0"
    and h6: "isIntersecting \<lparr>target = 0, isIntersecting = True\<rparr>"
    by (simp_all add: lazy_page_images)
  have a: "assignments_to 0 lazy_page = []"
    by (simp add: assignments_to_def lazy_page_images)
  show ?thesis
    using h1 h2 h3 h4 a lazy_image_loaded_once [OF h1 h2 h3 h4 h5 h6]
    by (simp add: lazy_page_images)
qed

text \<open>
  The claim C5 as stated, for every image that has the attribute \<^verbatim>\<open>data-src\<close>, fails for an
  image whose \<^verbatim>\<open>data-src\<close> is the empty string: the selector of line 341 matches it, so it
  is observed, and the test of line 330 fails for it, so that the callback neither removes
  the attribute nor stops observing the image.
\<close>

theorem lazy_image_empty_data_src_counterexample:
  "img_data_src (images lazy_page ! 1) = Some []
   \<and> watched 1 lazy_page
   \<and> images (imageObserver_callback [\<lparr>target = 1, isIntersecting = True\<rparr>] lazy_page) ! 1
       = \<lparr>img_src = None, img_data_src = Some []\<rparr>
   \<and> watched 1 (imageObserver_callback [\<lparr>target = 1, isIntersecting = True\<rparr>] lazy_page)"
  by (simp add: lazy_page_images watched_def imageObserver_callback_def observe_entry_def truthy_def)

section \<open>Properties of the absent-element guards\<close>

lemma page_truncate_listeners: "page.truncate (s\<lparr>listeners := l\<rparr>) = page.truncate s"
  by (simp add: page.truncate_def)











end
